theory Spec2Isabelle
  imports Main "HOL-Library.Product_Lexorder"
begin

section \<open>Errors\<close>

text \<open>
  The exceptions the modelled code can raise. \<open>NotImplementedError\<close> is raised by the
  abstract methods of \<open>Problem\<close>, \<open>IndexError\<close> by a list index out of range,
  \<open>KeyError\<close> and \<open>EmptyQueue\<close> by the priority queue.
\<close>

datatype error = NotImplementedError | IndexError | TypeError | KeyError | EmptyQueue

section \<open>Problem\<close>

text \<open>
  A problem instance: the initial state and the methods a subclass of \<open>Problem\<close>
  supplies. \<open>actions\<close> and \<open>result\<close> may raise (the base class raises
  \<open>NotImplementedError\<close>, a subclass may raise on its own), so they return a sum.
\<close>

record ('s, 'a) problem =
  initial :: 's
  actions :: "'s \<Rightarrow> error + 'a list"
  result :: "'s \<Rightarrow> 'a \<Rightarrow> error + 's"
  goal_test :: "'s \<Rightarrow> bool"
  path_cost :: "int \<Rightarrow> 's \<Rightarrow> 'a \<Rightarrow> 's \<Rightarrow> int"

text \<open>The methods of the base class \<open>Problem\<close> with a single goal state.\<close>

definition Problem_actions :: "'s \<Rightarrow> error + 'a list" where
  "Problem_actions s = Inl NotImplementedError"

definition Problem_result :: "'s \<Rightarrow> 'a \<Rightarrow> error + 's" where
  "Problem_result s a = Inl NotImplementedError"

definition Problem_goal_test :: "'s \<Rightarrow> 's \<Rightarrow> bool" where
  "Problem_goal_test goal s = (s = goal)"

definition Problem_path_cost :: "int \<Rightarrow> 's \<Rightarrow> 'a \<Rightarrow> 's \<Rightarrow> int" where
  "Problem_path_cost c state1 a state2 = c + 1"

section \<open>Node\<close>

datatype ('s, 'a) node =
  Node (state: 's) (parent: "('s, 'a) node option") (action: "'a option")
       (path_cost: int) (depth: nat)

text \<open>\<open>Node.__init__\<close>: the depth is 0, or the parent's depth plus one.\<close>

definition Node_init :: "'s \<Rightarrow> ('s, 'a) node option \<Rightarrow> 'a option \<Rightarrow> int \<Rightarrow> ('s, 'a) node" where
  "Node_init s par a c = Node s par a c (case par of None \<Rightarrow> 0 | Some p \<Rightarrow> depth p + 1)"

text \<open>\<open>Node.__lt__\<close>, \<open>Node.__eq__\<close> and \<open>Node.__hash__\<close>; the last over the hash
  function \<open>h\<close> of the states.\<close>

definition node_lt :: "('s::ord, 'a) node \<Rightarrow> ('s, 'a) node \<Rightarrow> bool" where
  "node_lt n m = (state n < state m)"

definition node_eq :: "('s, 'a) node \<Rightarrow> ('s, 'a) node \<Rightarrow> bool" where
  "node_eq n m = (state n = state m)"

definition node_hash :: "('s \<Rightarrow> int) \<Rightarrow> ('s, 'a) node \<Rightarrow> int" where
  "node_hash h n = h (state n)"

text \<open>\<open>Node.child_node\<close> and \<open>Node.expand\<close>. The list comprehension of \<open>expand\<close>
  builds the whole list first; the first call that raises ends it.\<close>

definition child_node :: "('s, 'a) problem \<Rightarrow> ('s, 'a) node \<Rightarrow> 'a \<Rightarrow> error + ('s, 'a) node" where
  "child_node p n a =
     (case result p (state n) a of
        Inl e \<Rightarrow> Inl e
      | Inr next_state \<Rightarrow>
          Inr (Node_init next_state (Some n) (Some a)
                 (problem.path_cost p (node.path_cost n) (state n) a next_state)))"

fun collect :: "('x \<Rightarrow> error + 'y) \<Rightarrow> 'x list \<Rightarrow> error + 'y list" where
  "collect g [] = Inr []"
| "collect g (x # xs) =
     (case g x of
        Inl e \<Rightarrow> Inl e
      | Inr y \<Rightarrow> (case collect g xs of Inl e \<Rightarrow> Inl e | Inr ys \<Rightarrow> Inr (y # ys)))"

definition expand :: "('s, 'a) problem \<Rightarrow> ('s, 'a) node \<Rightarrow> error + ('s, 'a) node list" where
  "expand p n =
     (case actions p (state n) of
        Inl e \<Rightarrow> Inl e
      | Inr acts \<Rightarrow> collect (child_node p n) acts)"

text \<open>\<open>Node.path\<close>: follow the parent links, then reverse. \<open>Node.solution\<close>: the
  \<open>action\<close> fields of the path without its first node.\<close>

fun path_back :: "('s, 'a) node \<Rightarrow> ('s, 'a) node list" where
  "path_back (Node s par a c d) =
     Node s par a c d # (case par of None \<Rightarrow> [] | Some p \<Rightarrow> path_back p)"

definition path :: "('s, 'a) node \<Rightarrow> ('s, 'a) node list" where
  "path n = rev (path_back n)"

definition solution :: "('s, 'a) node \<Rightarrow> 'a option list" where
  "solution n = map action (tl (path n))"

section \<open>Breadth-first graph search\<close>

text \<open>\<open>child not in frontier\<close> on a deque compares with \<open>Node.__eq__\<close>.\<close>

definition node_in :: "('s, 'a) node \<Rightarrow> ('s, 'a) node list \<Rightarrow> bool" where
  "node_in c fr = list_ex (\<lambda>m. node_eq m c) fr"

text \<open>The \<open>for child in node.expand(problem)\<close> loop of breadth-first search:
  \<open>Inl c\<close> when the loop returns the child \<open>c\<close>, \<open>Inr\<close> of the new frontier
  when it runs to its end.\<close>

fun bfs_for :: "('s, 'a) problem \<Rightarrow> 's set \<Rightarrow> ('s, 'a) node list \<Rightarrow> ('s, 'a) node list
    \<Rightarrow> ('s, 'a) node + ('s, 'a) node list" where
  "bfs_for p explored frontier [] = Inr frontier"
| "bfs_for p explored frontier (child # cs) =
     (if state child \<notin> explored \<and> \<not> node_in child frontier then
        (if goal_test p (state child) then Inl child
         else bfs_for p explored (frontier @ [child]) cs)
      else bfs_for p explored frontier cs)"

text \<open>What one pass through the body of a \<open>while\<close> loop does: raise, return,
  or go on with a new loop state.\<close>

datatype ('n, 'st) step = Raise error | Return "'n option" | Next 'st

text \<open>The body of the \<open>while\<close> loop after \<open>frontier.popleft()\<close>; \<open>step_num\<close> is
  already incremented.\<close>

definition bfs_body :: "('s, 'a) problem \<Rightarrow> int \<Rightarrow> ('s, 'a) node \<Rightarrow> ('s, 'a) node list
    \<Rightarrow> 's set \<Rightarrow> int \<Rightarrow> (('s, 'a) node, ('s, 'a) node list \<times> 's set \<times> int) step" where
  "bfs_body p step_limits n frontier explored step_num =
     (if step_limits > 0 \<and> step_num \<ge> step_limits then Return (Some n)
      else
        (case expand p n of
           Inl e \<Rightarrow> Raise e
         | Inr cs \<Rightarrow>
             (case bfs_for p (insert (state n) explored) frontier cs of
                Inl child \<Rightarrow> Return (Some child)
              | Inr frontier' \<Rightarrow> Next (frontier', insert (state n) explored, step_num))))"

text \<open>The \<open>while frontier\<close> loop. The value \<open>None\<close> of the outer option is a loop
  that never ends; \<open>Some (Inr None)\<close> is Python's \<open>return None\<close>.\<close>

partial_function (option) bfs_loop :: "('s, 'a) problem \<Rightarrow> int \<Rightarrow> ('s, 'a) node list
    \<Rightarrow> 's set \<Rightarrow> int \<Rightarrow> (error + ('s, 'a) node option) option" where
  "bfs_loop p step_limits frontier explored step_num =
     (case frontier of
        [] \<Rightarrow> Some (Inr None)
      | n # rest \<Rightarrow>
          (case bfs_body p step_limits n rest explored (step_num + 1) of
             Raise e \<Rightarrow> Some (Inl e)
           | Return r \<Rightarrow> Some (Inr r)
           | Next st \<Rightarrow> bfs_loop p step_limits (fst st) (fst (snd st)) (snd (snd st))))"

declare bfs_loop.simps [code]

definition breadth_first_graph_search :: "('s, 'a) problem \<Rightarrow> int
    \<Rightarrow> (error + ('s, 'a) node option) option" where
  "breadth_first_graph_search p step_limits =
     (let n = Node_init (initial p) None None 0 in
      if goal_test p (state n) then Some (Inr (Some n))
      else bfs_loop p step_limits [n] {} 0)"

section \<open>The priority queue\<close>

text \<open>
  Modelled from the spec: the class \<open>PriorityQueue\<close> of the module \<open>utils\<close>, which is
  not among the sources. The spec asks for a frontier ordered by ascending score that
  answers whether a node with a given state is in it, gives the score stored for that
  state, removes the entry of that state, and pops the entry of minimum score. The queue
  is the list of its (score, node) pairs in the order they were appended; nodes are
  compared with \<open>Node.__eq__\<close>. Among entries of the same score \<open>pop\<close> takes the one
  whose node is least by \<open>Node.__lt__\<close>, as pairs (score, node) compare. The function
  \<open>memoize\<close> of the same module stores the score on the node; on a pure score function
  it changes no value and is left out.
\<close>

type_synonym ('s, 'a) pq = "(int \<times> ('s, 'a) node) list"

definition pq_append :: "(('s, 'a) node \<Rightarrow> int) \<Rightarrow> ('s, 'a) pq \<Rightarrow> ('s, 'a) node \<Rightarrow> ('s, 'a) pq" where
  "pq_append f q item = q @ [(f item, item)]"

definition pq_contains :: "('s, 'a) pq \<Rightarrow> ('s, 'a) node \<Rightarrow> bool" where
  "pq_contains q key = list_ex (\<lambda>e. node_eq (snd e) key) q"

definition pq_getitem :: "('s, 'a) pq \<Rightarrow> ('s, 'a) node \<Rightarrow> error + int" where
  "pq_getitem q key =
     (case find (\<lambda>e. node_eq (snd e) key) q of
        None \<Rightarrow> Inl KeyError
      | Some e \<Rightarrow> Inr (fst e))"

fun del_first :: "('x \<Rightarrow> bool) \<Rightarrow> 'x list \<Rightarrow> 'x list" where
  "del_first P [] = []"
| "del_first P (x # xs) = (if P x then xs else x # del_first P xs)"

definition pq_delitem :: "('s, 'a) pq \<Rightarrow> ('s, 'a) node \<Rightarrow> error + ('s, 'a) pq" where
  "pq_delitem q key =
     (if pq_contains q key then Inr (del_first (\<lambda>e. node_eq (snd e) key) q)
      else Inl KeyError)"

definition entry_lt :: "int \<times> ('s::ord, 'a) node \<Rightarrow> int \<times> ('s, 'a) node \<Rightarrow> bool" where
  "entry_lt e1 e2 =
     (fst e1 < fst e2 \<or>
      (fst e1 = fst e2 \<and> \<not> node_eq (snd e1) (snd e2) \<and> node_lt (snd e1) (snd e2)))"

fun pq_min :: "int \<times> ('s::ord, 'a) node \<Rightarrow> ('s, 'a) pq \<Rightarrow> int \<times> ('s, 'a) node" where
  "pq_min best [] = best"
| "pq_min best (e # es) = pq_min (if entry_lt e best then e else best) es"

definition pq_pop :: "('s::ord, 'a) pq \<Rightarrow> error + (('s, 'a) node \<times> ('s, 'a) pq)" where
  "pq_pop q =
     (case q of
        [] \<Rightarrow> Inl EmptyQueue
      | e # es \<Rightarrow> (let m = pq_min e es in Inr (snd m, remove1 m q)))"

section \<open>Best-first graph search\<close>

text \<open>The body of the \<open>for child in node.expand(problem)\<close> loop of best-first
  search, for one child, and the loop.\<close>

definition bf_child :: "(('s, 'a) node \<Rightarrow> int) \<Rightarrow> 's set \<Rightarrow> ('s, 'a) pq \<Rightarrow> ('s, 'a) node
    \<Rightarrow> error + ('s, 'a) pq" where
  "bf_child f explored frontier child =
     (if state child \<notin> explored \<and> \<not> pq_contains frontier child then
        Inr (pq_append f frontier child)
      else if pq_contains frontier child then
        (case pq_getitem frontier child of
           Inl e \<Rightarrow> Inl e
         | Inr f_old \<Rightarrow>
             (if f child < f_old then
                (case pq_delitem frontier child of
                   Inl e \<Rightarrow> Inl e
                 | Inr frontier' \<Rightarrow> Inr (pq_append f frontier' child))
              else Inr frontier))
      else Inr frontier)"

fun bf_for :: "(('s, 'a) node \<Rightarrow> int) \<Rightarrow> 's set \<Rightarrow> ('s, 'a) pq \<Rightarrow> ('s, 'a) node list
    \<Rightarrow> error + ('s, 'a) pq" where
  "bf_for f explored frontier [] = Inr frontier"
| "bf_for f explored frontier (child # cs) =
     (case bf_child f explored frontier child of
        Inl e \<Rightarrow> Inl e
      | Inr frontier' \<Rightarrow> bf_for f explored frontier' cs)"

text \<open>The body of the \<open>while\<close> loop, from \<open>frontier.pop()\<close> on; \<open>step_num\<close> is
  already incremented. The \<open>display\<close> flag only prints and is left out.\<close>

definition bf_body :: "('s::ord, 'a) problem \<Rightarrow> (('s, 'a) node \<Rightarrow> int) \<Rightarrow> ('s, 'a) pq
    \<Rightarrow> 's set \<Rightarrow> int \<Rightarrow> (('s, 'a) node, ('s, 'a) pq \<times> 's set \<times> int) step" where
  "bf_body p f frontier explored step_num =
     (case pq_pop frontier of
        Inl e \<Rightarrow> Raise e
      | Inr popped \<Rightarrow>
          (if goal_test p (state (fst popped)) then Return (Some (fst popped))
           else
             (case expand p (fst popped) of
                Inl e \<Rightarrow> Raise e
              | Inr cs \<Rightarrow>
                  (case bf_for f (insert (state (fst popped)) explored) (snd popped) cs of
                     Inl e \<Rightarrow> Raise e
                   | Inr frontier' \<Rightarrow>
                       Next (frontier', insert (state (fst popped)) explored, step_num)))))"

partial_function (option) bf_loop :: "('s::ord, 'a) problem \<Rightarrow> (('s, 'a) node \<Rightarrow> int)
    \<Rightarrow> ('s, 'a) pq \<Rightarrow> 's set \<Rightarrow> int \<Rightarrow> (error + ('s, 'a) node option) option" where
  "bf_loop p f frontier explored step_num =
     (case frontier of
        [] \<Rightarrow> Some (Inr None)
      | e # es \<Rightarrow>
          (case bf_body p f frontier explored (step_num + 1) of
             Raise e \<Rightarrow> Some (Inl e)
           | Return r \<Rightarrow> Some (Inr r)
           | Next st \<Rightarrow> bf_loop p f (fst st) (fst (snd st)) (snd (snd st))))"

declare bf_loop.simps [code]

definition best_first_graph_search :: "('s::ord, 'a) problem \<Rightarrow> (('s, 'a) node \<Rightarrow> int)
    \<Rightarrow> (error + ('s, 'a) node option) option" where
  "best_first_graph_search p f =
     (let n = Node_init (initial p) None None 0 in
      bf_loop p f (pq_append f [] n) {} 0)"

section \<open>MazePuzzle\<close>

text \<open>A maze is a list of rows of one-character strings. Python's list indexing:
  an index from \<open>-len\<close> to \<open>len - 1\<close> is read (a negative one from the end), any other
  raises \<open>IndexError\<close>.\<close>

type_synonym maze = "string list list"

definition py_index :: "'x list \<Rightarrow> int \<Rightarrow> error + 'x" where
  "py_index xs i =
     (let n = int (length xs) in
      if 0 \<le> i \<and> i < n then Inr (xs ! nat i)
      else if - n \<le> i \<and> i < 0 then Inr (xs ! nat (i + n))
      else Inl IndexError)"

text \<open>\<open>self.maze[x][y] == '.'\<close>\<close>

definition passable :: "maze \<Rightarrow> int \<Rightarrow> int \<Rightarrow> error + bool" where
  "passable m x y =
     (case py_index m x of
        Inl e \<Rightarrow> Inl e
      | Inr row \<Rightarrow> (case py_index row y of Inl e \<Rightarrow> Inl e | Inr c \<Rightarrow> Inr (c = ''.'')))"

definition maze_actions :: "maze \<Rightarrow> int \<times> int \<Rightarrow> error + string list" where
  "maze_actions m s =
     (let x = fst s; y = snd s in
      case (if x > 0 then passable m (x - 1) y else Inr False) of
        Inl e \<Rightarrow> Inl e
      | Inr up \<Rightarrow>
      (case (if x < int (length m) - 1 then passable m (x + 1) y else Inr False) of
        Inl e \<Rightarrow> Inl e
      | Inr down \<Rightarrow>
      (case (if y > 0 then passable m x (y - 1) else Inr False) of
        Inl e \<Rightarrow> Inl e
      | Inr left \<Rightarrow>
      (case py_index m 0 of
        Inl e \<Rightarrow> Inl e
      | Inr row0 \<Rightarrow>
      (case (if y < int (length row0) - 1 then passable m x (y + 1) else Inr False) of
        Inl e \<Rightarrow> Inl e
      | Inr right \<Rightarrow>
          Inr ((if up then [''UP''] else []) @ (if down then [''DOWN''] else []) @
               (if left then [''LEFT''] else []) @ (if right then [''RIGHT''] else [])))))))"

text \<open>\<open>MazePuzzle.result\<close>: Python's \<open>None\<close>, returned when no branch matches, is
  the value \<open>None\<close>.\<close>

definition maze_result :: "int \<times> int \<Rightarrow> string \<Rightarrow> (int \<times> int) option" where
  "maze_result s a =
     (let x = fst s; y = snd s in
      if a = ''UP'' then Some (x - 1, y)
      else if a = ''DOWN'' then Some (x + 1, y)
      else if a = ''LEFT'' then Some (x, y - 1)
      else if a = ''RIGHT'' then Some (x, y + 1)
      else None)"

text \<open>\<open>MazePuzzle.h\<close>, the Manhattan distance to the goal.\<close>

definition maze_h :: "int \<times> int \<Rightarrow> (int \<times> int, string) node \<Rightarrow> int" where
  "maze_h goal n = \<bar>fst (state n) - fst goal\<bar> + \<bar>snd (state n) - snd goal\<bar>"

text \<open>The problem instance \<open>MazePuzzle(initial, goal, maze)\<close> over the states that are
  pairs of integers. A \<open>None\<close> returned by \<open>result\<close> is no such state: the next
  \<open>x, y = state\<close> on it raises \<open>TypeError\<close>, which the instance reports at once;
  no action that \<open>actions\<close> returns leads there (lemma \<open>maze_actions_result\<close>).
  \<open>path_cost\<close> is inherited from \<open>Problem\<close>.\<close>

definition MazePuzzle :: "int \<times> int \<Rightarrow> int \<times> int \<Rightarrow> maze \<Rightarrow> (int \<times> int, string) problem" where
  "MazePuzzle init goal m =
     \<lparr> initial = init,
       actions = maze_actions m,
       result = (\<lambda>s a. case maze_result s a of None \<Rightarrow> Inl TypeError | Some s' \<Rightarrow> Inr s'),
       goal_test = (\<lambda>s. s = goal),
       path_cost = Problem_path_cost \<rparr>"

text \<open>The maze and the puzzle of the driver script.\<close>

definition maze :: maze where
  "maze =
     [[''.'', ''.'', ''.'', ''#'', ''.''],
      [''.'', ''.'', ''.'', ''.'', ''.''],
      [''#'', ''.'', ''#'', ''.'', ''#''],
      [''.'', ''.'', ''.'', ''#'', ''.''],
      [''.'', ''#'', ''.'', ''.'', ''.'']]"

definition puzzle :: "(int \<times> int, string) problem" where
  "puzzle = MazePuzzle (0, 0) (4, 4) maze"

section \<open>Notions the properties are stated with\<close>

text \<open>Applying a list of actions with \<open>problem.result\<close>, from a state on.\<close>

fun apply_actions :: "('s, 'a) problem \<Rightarrow> 's \<Rightarrow> 'a list \<Rightarrow> error + 's" where
  "apply_actions p s [] = Inr s"
| "apply_actions p s (a # as) =
     (case result p s a of Inl e \<Rightarrow> Inl e | Inr s' \<Rightarrow> apply_actions p s' as)"

text \<open>The root node of a search and the nodes reached from it by repeated
  \<open>expand\<close>.\<close>

definition root :: "('s, 'a) problem \<Rightarrow> ('s, 'a) node" where
  "root p = Node_init (initial p) None None 0"

inductive tree_node :: "('s, 'a) problem \<Rightarrow> ('s, 'a) node \<Rightarrow> bool" for p where
  tree_root: "tree_node p (root p)"
| tree_child: "tree_node p n \<Longrightarrow> expand p n = Inr cs \<Longrightarrow> c \<in> set cs \<Longrightarrow> tree_node p c"

text \<open>The cells a list of actions visits in a maze, the start cell left out; each
  action is applied with \<open>MazePuzzle.result\<close>. A cell is open when it lies in the
  grid and holds a dot.\<close>

fun cells :: "int \<times> int \<Rightarrow> string list \<Rightarrow> (int \<times> int) list option" where
  "cells s [] = Some []"
| "cells s (a # as) =
     (case maze_result s a of
        None \<Rightarrow> None
      | Some s' \<Rightarrow> (case cells s' as of None \<Rightarrow> None | Some cs \<Rightarrow> Some (s' # cs)))"

definition open_cell :: "maze \<Rightarrow> int \<times> int \<Rightarrow> bool" where
  "open_cell m c =
     (0 \<le> fst c \<and> fst c < int (length m) \<and> 0 \<le> snd c \<and>
      snd c < int (length (m ! nat (fst c))) \<and> m ! nat (fst c) ! nat (snd c) = ''.'')"

definition maze_path :: "maze \<Rightarrow> int \<times> int \<Rightarrow> int \<times> int \<Rightarrow> string list \<Rightarrow> bool" where
  "maze_path m s g as =
     (case cells s as of
        None \<Rightarrow> False
      | Some cs \<Rightarrow> list_all (open_cell m) cs \<and> last (s # cs) = g)"

text \<open>\<open>walk p s as\<close>: the state reached from \<open>s\<close> by the actions \<open>as\<close>, when each of
  them is among the actions the problem allows in the state it is applied to and no method
  raises. A solution is a list of actions that leads from the initial state to a goal. The
  reachable states are the ends of the walks from the initial state.\<close>

fun walk :: "('s, 'a) problem \<Rightarrow> 's \<Rightarrow> 'a list \<Rightarrow> 's option" where
  "walk p s [] = Some s"
| "walk p s (a # as) =
     (case actions p s of
        Inl e \<Rightarrow> None
      | Inr acts \<Rightarrow>
          (if a \<in> set acts then
             (case result p s a of Inl e \<Rightarrow> None | Inr s' \<Rightarrow> walk p s' as)
           else None))"

definition is_solution :: "('s, 'a) problem \<Rightarrow> 'a list \<Rightarrow> bool" where
  "is_solution p as = (case walk p (initial p) as of None \<Rightarrow> False | Some t \<Rightarrow> goal_test p t)"

definition reachable :: "('s, 'a) problem \<Rightarrow> 's set" where
  "reachable p = {t. \<exists>as. walk p (initial p) as = Some t}"

text \<open>The problem's \<open>actions\<close> and \<open>result\<close> return (raise nothing) on every
  reachable state.\<close>

definition methods_return :: "('s, 'a) problem \<Rightarrow> bool" where
  "methods_return p =
     (\<forall>t \<in> reachable p. \<exists>acts. actions p t = Inr acts \<and>
        (\<forall>a \<in> set acts. \<exists>t'. result p t a = Inr t'))"

text \<open>The states of the \<open>while\<close> loop of breadth-first search: frontier, explored
  set and \<open>step_num\<close> at the loop head. \<open>bfs_run p lim st st'\<close>: the loop started in
  \<open>st\<close> comes to its head in \<open>st'\<close>. \<open>bfs_point p lim st explored frontier\<close>: started
  in \<open>st\<close> the search comes to a point (at the loop head, after \<open>popleft\<close>, or in
  the \<open>for\<close> loop after \<open>j\<close> children) with this explored set and frontier.\<close>

type_synonym ('s, 'a) bfs_state = "('s, 'a) node list \<times> 's set \<times> int"

definition bfs_init :: "('s, 'a) problem \<Rightarrow> ('s, 'a) bfs_state" where
  "bfs_init p = ([root p], {}, 0)"

inductive bfs_run :: "('s, 'a) problem \<Rightarrow> int \<Rightarrow> ('s, 'a) bfs_state \<Rightarrow> ('s, 'a) bfs_state \<Rightarrow> bool"
  for p lim st where
  bfs_run_refl: "bfs_run p lim st st"
| bfs_run_step: "bfs_run p lim st (n # rest, ex, k) \<Longrightarrow>
     bfs_body p lim n rest ex (k + 1) = Next st' \<Longrightarrow> bfs_run p lim st st'"

inductive bfs_point :: "('s, 'a) problem \<Rightarrow> int \<Rightarrow> ('s, 'a) bfs_state \<Rightarrow> 's set
    \<Rightarrow> ('s, 'a) node list \<Rightarrow> bool"
  for p lim st where
  bfs_at_head: "bfs_run p lim st (fr, ex, k) \<Longrightarrow> bfs_point p lim st ex fr"
| bfs_at_pop: "bfs_run p lim st (n # rest, ex, k) \<Longrightarrow> bfs_point p lim st ex rest"
| bfs_at_child: "bfs_run p lim st (n # rest, ex, k) \<Longrightarrow> \<not> (lim > 0 \<and> k + 1 \<ge> lim) \<Longrightarrow>
     expand p n = Inr cs \<Longrightarrow> bfs_for p (insert (state n) ex) rest (take j cs) = Inr fr \<Longrightarrow>
     bfs_point p lim st (insert (state n) ex) fr"

text \<open>The same for best-first search.\<close>

type_synonym ('s, 'a) bf_state = "('s, 'a) pq \<times> 's set \<times> int"

definition bf_init :: "('s, 'a) problem \<Rightarrow> (('s, 'a) node \<Rightarrow> int) \<Rightarrow> ('s, 'a) bf_state" where
  "bf_init p f = (pq_append f [] (root p), {}, 0)"

inductive bf_run :: "('s::ord, 'a) problem \<Rightarrow> (('s, 'a) node \<Rightarrow> int) \<Rightarrow> ('s, 'a) bf_state
    \<Rightarrow> ('s, 'a) bf_state \<Rightarrow> bool"
  for p f st where
  bf_run_refl: "bf_run p f st st"
| bf_run_step: "bf_run p f st (fr, ex, k) \<Longrightarrow> fr \<noteq> [] \<Longrightarrow>
     bf_body p f fr ex (k + 1) = Next st' \<Longrightarrow> bf_run p f st st'"

inductive bf_point :: "('s::ord, 'a) problem \<Rightarrow> (('s, 'a) node \<Rightarrow> int) \<Rightarrow> ('s, 'a) bf_state
    \<Rightarrow> 's set \<Rightarrow> ('s, 'a) pq \<Rightarrow> bool"
  for p f st where
  bf_at_head: "bf_run p f st (fr, ex, k) \<Longrightarrow> bf_point p f st ex fr"
| bf_at_pop: "bf_run p f st (fr, ex, k) \<Longrightarrow> pq_pop fr = Inr (n, rest) \<Longrightarrow>
     bf_point p f st ex rest"
| bf_at_child: "bf_run p f st (fr, ex, k) \<Longrightarrow> pq_pop fr = Inr (n, rest) \<Longrightarrow>
     \<not> goal_test p (state n) \<Longrightarrow> expand p n = Inr cs \<Longrightarrow>
     bf_for f (insert (state n) ex) rest (take j cs) = Inr fr' \<Longrightarrow>
     bf_point p f st (insert (state n) ex) fr'"

text \<open>What holds of explored set and frontier at every point of a search: no two
  frontier entries have the same state, and no frontier entry has an explored state.\<close>

definition bfs_inv :: "'s set \<Rightarrow> ('s, 'a) node list \<Rightarrow> bool" where
  "bfs_inv ex fr = (distinct (map state fr) \<and> state ` set fr \<inter> ex = {})"

definition pq_inv :: "'s set \<Rightarrow> ('s, 'a) pq \<Rightarrow> bool" where
  "pq_inv ex q =
     (distinct (map (\<lambda>e. state (snd e)) q) \<and> (\<lambda>e. state (snd e)) ` set q \<inter> ex = {})"

text \<open>\<open>bfs_stops p lim st r\<close>: in the loop state \<open>st\<close> the search ends with \<open>r\<close>,
  because the frontier is empty or the body returns or raises.\<close>

definition bfs_stops :: "('s, 'a) problem \<Rightarrow> int \<Rightarrow> ('s, 'a) bfs_state
    \<Rightarrow> error + ('s, 'a) node option \<Rightarrow> bool" where
  "bfs_stops p lim st r =
     (case fst st of
        [] \<Rightarrow> r = Inr None
      | n # rest \<Rightarrow>
          (case bfs_body p lim n rest (fst (snd st)) (snd (snd st) + 1) of
             Raise e \<Rightarrow> r = Inl e
           | Return x \<Rightarrow> r = Inr x
           | Next st' \<Rightarrow> False))"

definition bf_stops :: "('s::ord, 'a) problem \<Rightarrow> (('s, 'a) node \<Rightarrow> int) \<Rightarrow> ('s, 'a) bf_state
    \<Rightarrow> error + ('s, 'a) node option \<Rightarrow> bool" where
  "bf_stops p f st r =
     (case fst st of
        [] \<Rightarrow> r = Inr None
      | e # es \<Rightarrow>
          (case bf_body p f (fst st) (fst (snd st)) (snd (snd st) + 1) of
             Raise e \<Rightarrow> r = Inl e
           | Return x \<Rightarrow> r = Inr x
           | Next st' \<Rightarrow> False))"

text \<open>The invariants of breadth-first search behind its shortest solutions. A node is
  sound (\<open>node_ok\<close>) when its solution is a walk from the initial state to its state
  of as many actions as its depth, and of least depth (\<open>min_depth\<close>) when no walk to
  its state is shorter. A state is closed into a set when every action allowed in it
  leads into the set.\<close>

definition trace :: "('s, 'a) node \<Rightarrow> 'a list" where
  "trace n = map the (solution n)"

definition node_ok :: "('s, 'a) problem \<Rightarrow> ('s, 'a) node \<Rightarrow> bool" where
  "node_ok p n =
     (solution n = map Some (trace n) \<and> length (trace n) = depth n \<and>
      walk p (initial p) (trace n) = Some (state n))"

definition min_depth :: "('s, 'a) problem \<Rightarrow> ('s, 'a) node \<Rightarrow> bool" where
  "min_depth p n = (\<forall>as. walk p (initial p) as = Some (state n) \<longrightarrow> depth n \<le> length as)"

definition closed_from :: "('s, 'a) problem \<Rightarrow> 's \<Rightarrow> 's set \<Rightarrow> bool" where
  "closed_from p s T =
     (\<forall>acts a s'. actions p s = Inr acts \<longrightarrow> a \<in> set acts \<longrightarrow> result p s a = Inr s' \<longrightarrow> s' \<in> T)"

text \<open>At the loop head: the frontier nodes are sound and of least depth, in ascending
  order of depth and at most one deeper than the first; every explored state is closed
  into the explored and frontier states; no goal is among these. In the \<open>for\<close> loop
  over the children \<open>todo\<close> of the popped node \<open>n\<close> the same, with \<open>n\<close> closed into
  these states and those of the children still to come.\<close>

definition bfs_head_inv :: "('s, 'a) problem \<Rightarrow> ('s, 'a) node list \<Rightarrow> 's set \<Rightarrow> bool" where
  "bfs_head_inv p fr ex =
     ((\<forall>m \<in> set fr. node_ok p m \<and> min_depth p m \<and> depth m \<le> depth (hd fr) + 1) \<and>
      sorted (map depth fr) \<and>
      (\<forall>s \<in> ex. closed_from p s (ex \<union> state ` set fr)) \<and>
      initial p \<in> ex \<union> state ` set fr \<and>
      (\<forall>s \<in> ex \<union> state ` set fr. \<not> goal_test p s))"

definition bfs_mid_inv :: "('s, 'a) problem \<Rightarrow> ('s, 'a) node \<Rightarrow> 's set \<Rightarrow> ('s, 'a) node list
    \<Rightarrow> ('s, 'a) node list \<Rightarrow> bool" where
  "bfs_mid_inv p n ex fr todo =
     (min_depth p n \<and> state n \<in> ex \<and>
      (\<forall>m \<in> set fr. node_ok p m \<and> min_depth p m \<and> depth n \<le> depth m \<and> depth m \<le> depth n + 1) \<and>
      sorted (map depth fr) \<and>
      (\<forall>s \<in> ex - {state n}. closed_from p s (ex \<union> state ` set fr)) \<and>
      closed_from p (state n) (ex \<union> state ` set fr \<union> state ` set todo) \<and>
      (\<forall>c \<in> set todo. node_ok p c \<and> depth c = depth n + 1) \<and>
      initial p \<in> ex \<union> state ` set fr \<and>
      (\<forall>s \<in> ex \<union> state ` set fr. \<not> goal_test p s))"

text \<open>A problem with three states to instantiate the theorems with: from state 0 the
  actions 1 and 2, from state 1 the action 2, each leading to the state of its name; the
  step from 0 to 2 costs 5, the others 1; the goal is the state \<open>g\<close>.\<close>

definition diamond :: "nat \<Rightarrow> (nat, nat) problem" where
  "diamond g =
     \<lparr> initial = 0,
       actions = (\<lambda>s. Inr (if s = 0 then [1, 2] else if s = 1 then [2] else [])),
       result = (\<lambda>s a. Inr a),
       goal_test = (\<lambda>s. s = g),
       path_cost = (\<lambda>c s a s'. c + (if s = 0 \<and> s' = 2 then 5 else 1)) \<rparr>"

section \<open>Nodes\<close>

lemma path_back_simp: "path_back n = n # (case parent n of None \<Rightarrow> [] | Some q \<Rightarrow> path_back q)"
  by (cases n) simp

lemma path_Node_init_None: "path (Node_init s None a c) = [Node_init s None a c]"
  by (simp add: path_def Node_init_def)

lemma path_Node_init_Some: "path (Node_init s (Some n) a c) = path n @ [Node_init s (Some n) a c]"
  by (simp add: path_def Node_init_def)

lemma path_not_Nil: "path n \<noteq> []"
  by (cases n) (simp add: path_def)

lemma last_path: "last (path n) = n"
  by (cases n) (simp add: path_def last_rev)

lemma solution_root: "solution (root p) = []"
  by (simp add: solution_def root_def path_Node_init_None)

lemma solution_Node_init_Some: "solution (Node_init s (Some n) a c) = solution n @ [a]"
  by (simp add: solution_def path_Node_init_Some path_not_Nil) (simp add: Node_init_def)

lemma depth_Node_init_Some: "depth (Node_init s (Some n) a c) = depth n + 1"
  by (simp add: Node_init_def)

lemma depth_Node_init_None: "depth (Node_init s None a c) = 0"
  by (simp add: Node_init_def)

lemma state_Node_init: "state (Node_init s par a c) = s"
  by (simp add: Node_init_def)

lemma collect_Inr_set:
  "collect g xs = Inr ys \<Longrightarrow> y \<in> set ys \<Longrightarrow> \<exists>x \<in> set xs. g x = Inr y"
proof (induction xs arbitrary: ys)
  case Nil
  then show ?case by simp
next
  case (Cons x xs)
  then show ?case by (auto split: sum.splits)
qed

lemma collect_Inr_all:
  "collect g xs = Inr ys \<Longrightarrow> x \<in> set xs \<Longrightarrow> \<exists>y \<in> set ys. g x = Inr y"
proof (induction xs arbitrary: ys)
  case Nil
  then show ?case by simp
next
  case (Cons x' xs)
  then show ?case by (auto split: sum.splits)
qed

lemma expand_child:
  assumes "expand p n = Inr cs" and "c \<in> set cs"
  shows "\<exists>acts a s'. actions p (state n) = Inr acts \<and> a \<in> set acts \<and>
           result p (state n) a = Inr s' \<and>
           c = Node_init s' (Some n) (Some a)
                 (problem.path_cost p (node.path_cost n) (state n) a s')"
proof -
  from assms(1) obtain acts where acts: "actions p (state n) = Inr acts"
    and col: "collect (child_node p n) acts = Inr cs"
    by (auto simp: expand_def split: sum.splits)
  from collect_Inr_set [OF col assms(2)] obtain a where a: "a \<in> set acts"
    and c: "child_node p n a = Inr c" by blast
  from c obtain s' where "result p (state n) a = Inr s'"
    and "c = Node_init s' (Some n) (Some a)
               (problem.path_cost p (node.path_cost n) (state n) a s')"
    by (auto simp: child_node_def split: sum.splits)
  with acts a show ?thesis by blast
qed

lemma apply_actions_append:
  "apply_actions p s (as @ bs) =
     (case apply_actions p s as of Inl e \<Rightarrow> Inl e | Inr s' \<Rightarrow> apply_actions p s' bs)"
  by (induction as arbitrary: s) (auto split: sum.splits)

lemma tree_node_solution:
  "tree_node p n \<Longrightarrow>
     length (solution n) = depth n \<and> hd (path n) = root p \<and> None \<notin> set (solution n) \<and>
     apply_actions p (initial p) (map the (solution n)) = Inr (state n)"
proof (induction rule: tree_node.induct)
  case tree_root
  show ?case
    by (simp add: solution_root)
      (simp add: root_def path_Node_init_None depth_Node_init_None state_Node_init)
next
  case (tree_child n cs c)
  from expand_child [OF tree_child.hyps(2,3)] obtain a s' where
    res: "result p (state n) a = Inr s'" and
    c: "c = Node_init s' (Some n) (Some a)
              (problem.path_cost p (node.path_cost n) (state n) a s')"
    by blast
  from tree_child.IH show ?case
    by (simp add: c solution_Node_init_Some depth_Node_init_Some path_Node_init_Some
        path_not_Nil state_Node_init apply_actions_append res)
qed

text \<open>
  C6. For every node \<open>n\<close> reached by repeated \<open>expand\<close> from the root node of the
  problem: \<open>solution n\<close> has \<open>depth n\<close> entries; it is the list of the \<open>action\<close>
  fields of \<open>path n\<close> without its first node, which is the root, none of them absent;
  and applying these actions in order with \<open>problem.result\<close> from \<open>initial\<close>
  raises nothing and gives \<open>state n\<close>.
\<close>

theorem solution_reconstruction:
  "tree_node p n \<Longrightarrow>
     length (solution n) = depth n \<and>
     solution n = map action (tl (path n)) \<and> hd (path n) = root p \<and> last (path n) = n \<and>
     None \<notin> set (solution n) \<and>
     apply_actions p (initial p) (map the (solution n)) = Inr (state n)"
  using tree_node_solution [of p n] by (simp add: last_path) (simp add: solution_def)

lemma puzzle_expand_root:
  "expand puzzle (root puzzle) =
     Inr [Node (1, 0) (Some (Node (0, 0) None None 0 0)) (Some ''DOWN'') 1 1,
          Node (0, 1) (Some (Node (0, 0) None None 0 0)) (Some ''RIGHT'') 1 1]"
  by code_simp

theorem solution_reconstruction_witness:
  "tree_node puzzle (Node (0, 1) (Some (Node (0, 0) None None 0 0)) (Some ''RIGHT'') 1 1) \<and>
   solution (Node (0 :: int, 1 :: int) (Some (Node (0, 0) None None 0 0)) (Some ''RIGHT'') 1 1)
     = [Some ''RIGHT''] \<and>
   apply_actions puzzle (initial puzzle)
     (map the (solution
        (Node (0 :: int, 1 :: int) (Some (Node (0, 0) None None 0 0)) (Some ''RIGHT'') 1 1)))
     = Inr (0, 1)"
proof -
  let ?c = "Node (0, 1) (Some (Node (0::int, 0::int) None None 0 0)) (Some ''RIGHT'') 1 1"
  have t: "tree_node puzzle ?c"
    by (rule tree_child [OF tree_root puzzle_expand_root]) simp
  have s: "solution ?c = [Some ''RIGHT'']"
    by (simp add: solution_def path_def)
  from solution_reconstruction [OF t]
  have "apply_actions puzzle (initial puzzle) (map the (solution ?c)) = Inr (state ?c)"
    by blast
  then have a: "apply_actions puzzle (initial puzzle) (map the (solution ?c)) = Inr (0, 1)"
    by simp
  from t s a show ?thesis by - (intro conjI; assumption)
qed

section \<open>Node equality\<close>

lemma node_in_iff: "node_in c fr \<longleftrightarrow> state c \<in> state ` set fr"
  unfolding node_in_def list_ex_iff node_eq_def image_iff by metis

lemma pq_contains_iff: "pq_contains q c \<longleftrightarrow> state c \<in> (\<lambda>e. state (snd e)) ` set q"
  unfolding pq_contains_def list_ex_iff node_eq_def image_iff by metis

text \<open>
  C7. Two nodes are equal by \<open>Node.__eq__\<close> exactly when their states are equal,
  whatever their parent, action, path cost and depth; the hash of a node is the hash
  of its state; so whether a node is in a frontier (a deque or the priority queue)
  depends on its state alone.
\<close>

theorem node_equality_by_state:
  "node_eq n1 n2 = (state n1 = state n2) \<and>
   node_eq (Node s par1 a1 c1 d1) (Node s' par2 a2 c2 d2) = (s = s') \<and>
   node_hash h n1 = h (state n1) \<and>
   node_in n1 fr = (state n1 \<in> state ` set fr) \<and>
   pq_contains q n1 = (state n1 \<in> (\<lambda>e. state (snd e)) ` set q)"
  by (simp add: node_in_iff pq_contains_iff) (simp add: node_eq_def node_hash_def)

section \<open>The moves of MazePuzzle\<close>

text \<open>\<open>actions\<close> returns only the four names of moves, so \<open>result\<close> applied to an
  action of \<open>actions\<close> is a cell, and the problem instance never meets a \<open>None\<close>
  state.\<close>

lemma maze_actions_names:
  assumes "maze_actions m s = Inr acts"
  shows "set acts \<subseteq> {''UP'', ''DOWN'', ''LEFT'', ''RIGHT''}"
proof -
  from assms obtain up down left right where
    "acts = (if up then [''UP''] else []) @ (if down then [''DOWN''] else []) @
       (if left then [''LEFT''] else []) @ (if right then [''RIGHT''] else [])"
    unfolding maze_actions_def Let_def by (simp split: sum.splits) metis
  then show ?thesis by auto
qed

lemma maze_actions_result:
  assumes "maze_actions m s = Inr acts" and "a \<in> set acts"
  shows "\<exists>s'. maze_result s a = Some s' \<and> result (MazePuzzle init goal m) s a = Inr s'"
proof -
  from maze_actions_names [OF assms(1)] assms(2)
  have "a \<in> {''UP'', ''DOWN'', ''LEFT'', ''RIGHT''}" by blast
  then have "\<exists>s'. maze_result s a = Some s'" by (auto simp: maze_result_def)
  then show ?thesis by (auto simp: MazePuzzle_def)
qed

text \<open>
  C10. \<open>MazePuzzle.result\<close> returns for every state \<open>(x, y)\<close> and each of the four
  actions the cell one step away, whatever the maze holds there, and \<open>None\<close> for any
  other action; it has no raising branch.
\<close>

theorem maze_result_total:
  "maze_result (x, y) ''UP'' = Some (x - 1, y) \<and>
   maze_result (x, y) ''DOWN'' = Some (x + 1, y) \<and>
   maze_result (x, y) ''LEFT'' = Some (x, y - 1) \<and>
   maze_result (x, y) ''RIGHT'' = Some (x, y + 1) \<and>
   (a \<notin> {''UP'', ''DOWN'', ''LEFT'', ''RIGHT''} \<longrightarrow> maze_result (x, y) a = None)"
  by (simp add: maze_result_def)

theorem maze_result_total_witness:
  "''STAY'' \<notin> {''UP'', ''DOWN'', ''LEFT'', ''RIGHT''} \<and> maze_result (2, 3) ''STAY'' = None \<and>
   maze_result (0, 0) ''UP'' = Some (- 1, 0)"
  using maze_result_total [of 2 3 "''STAY''"] maze_result_total [of 0 0 "''STAY''"] by simp

section \<open>The maze of the driver script\<close>

lemma returned_solution:
  assumes "map_option (map_sum id (map_option g)) r = Some (Inr (Some y))"
  shows "\<exists>n. r = Some (Inr (Some n)) \<and> g n = y"
proof (cases r)
  case None
  with assms show ?thesis by simp
next
  case (Some v)
  with assms show ?thesis by (cases v) auto
qed

lemma bfs_puzzle:
  "map_option (map_sum id (map_option solution)) (breadth_first_graph_search puzzle (- 1)) =
     Some (Inr (Some (map Some
       [''DOWN'', ''RIGHT'', ''DOWN'', ''DOWN'', ''RIGHT'', ''DOWN'', ''RIGHT'', ''RIGHT''])))"
  by code_simp

lemma best_first_puzzle:
  "map_option (map_sum id (map_option solution))
       (best_first_graph_search puzzle (maze_h (4, 4))) =
     Some (Inr (Some (map Some
       [''RIGHT'', ''DOWN'', ''DOWN'', ''DOWN'', ''RIGHT'', ''DOWN'', ''RIGHT'', ''RIGHT''])))"
  by code_simp

lemma maze_path_bfs:
  "maze_path maze (0, 0) (4, 4)
     [''DOWN'', ''RIGHT'', ''DOWN'', ''DOWN'', ''RIGHT'', ''DOWN'', ''RIGHT'', ''RIGHT''] \<and>
   is_solution puzzle
     [''DOWN'', ''RIGHT'', ''DOWN'', ''DOWN'', ''RIGHT'', ''DOWN'', ''RIGHT'', ''RIGHT'']"
  by code_simp

lemma maze_path_best_first:
  "maze_path maze (0, 0) (4, 4)
     [''RIGHT'', ''DOWN'', ''DOWN'', ''DOWN'', ''RIGHT'', ''DOWN'', ''RIGHT'', ''RIGHT''] \<and>
   is_solution puzzle
     [''RIGHT'', ''DOWN'', ''DOWN'', ''DOWN'', ''RIGHT'', ''DOWN'', ''RIGHT'', ''RIGHT'']"
  by code_simp

text \<open>
  C2. On the maze of the driver script, from \<open>(0, 0)\<close> to \<open>(4, 4)\<close>, breadth-first
  search (called as the script does, with the default step limit \<open>-1\<close>) and best-first
  search scored by the Manhattan distance each return a node. Its solution has 8
  actions, and following them from \<open>(0, 0)\<close> visits only open cells of the grid and
  ends in \<open>(4, 4)\<close>; each action is one that \<open>actions\<close> allows where it is taken.
\<close>

theorem maze_end_to_end:
  "(\<exists>n as. breadth_first_graph_search puzzle (- 1) = Some (Inr (Some n)) \<and>
      solution n = map Some as \<and> length as = 8 \<and> maze_path maze (0, 0) (4, 4) as \<and>
      is_solution puzzle as) \<and>
   (\<exists>n as. best_first_graph_search puzzle (maze_h (4, 4)) = Some (Inr (Some n)) \<and>
      solution n = map Some as \<and> length as = 8 \<and> maze_path maze (0, 0) (4, 4) as \<and>
      is_solution puzzle as)"
proof
  from returned_solution [OF bfs_puzzle] obtain n where
    "breadth_first_graph_search puzzle (- 1) = Some (Inr (Some n))" and
    "solution n = map Some
       [''DOWN'', ''RIGHT'', ''DOWN'', ''DOWN'', ''RIGHT'', ''DOWN'', ''RIGHT'', ''RIGHT'']"
    by blast
  with maze_path_bfs show "\<exists>n as. breadth_first_graph_search puzzle (- 1) = Some (Inr (Some n)) \<and>
      solution n = map Some as \<and> length as = 8 \<and> maze_path maze (0, 0) (4, 4) as \<and>
      is_solution puzzle as"
    by (intro exI conjI) (assumption, assumption, simp, simp_all)
next
  from returned_solution [OF best_first_puzzle] obtain n where
    "best_first_graph_search puzzle (maze_h (4, 4)) = Some (Inr (Some n))" and
    "solution n = map Some
       [''RIGHT'', ''DOWN'', ''DOWN'', ''DOWN'', ''RIGHT'', ''DOWN'', ''RIGHT'', ''RIGHT'']"
    by blast
  with maze_path_best_first
  show "\<exists>n as. best_first_graph_search puzzle (maze_h (4, 4)) = Some (Inr (Some n)) \<and>
      solution n = map Some as \<and> length as = 8 \<and> maze_path maze (0, 0) (4, 4) as \<and>
      is_solution puzzle as"
    by (intro exI conjI) (assumption, assumption, simp, simp_all)
qed

section \<open>Loop invariants\<close>

subsection \<open>Frontier and explored set of breadth-first search\<close>
lemma bfs_for_inv:
  "bfs_for p ex fr cs = Inr fr' \<Longrightarrow> bfs_inv ex fr \<Longrightarrow> bfs_inv ex fr'"
proof (induction cs arbitrary: fr)
  case Nil
  then show ?case by simp
next
  case (Cons c cs)
  show ?case
  proof (cases "state c \<notin> ex \<and> \<not> node_in c fr")
    case True
    with Cons.prems(1) have run: "bfs_for p ex (fr @ [c]) cs = Inr fr'"
      by (simp split: if_splits)
    from True Cons.prems(2) have "bfs_inv ex (fr @ [c])"
      by (auto simp: bfs_inv_def node_in_iff)
    with run show ?thesis by (rule Cons.IH)
  next
    case False
    with Cons.prems(1) have "bfs_for p ex fr cs = Inr fr'" by auto
    then show ?thesis using Cons.prems(2) by (rule Cons.IH)
  qed
qed

lemma bfs_pop_inv: "bfs_inv ex (n # rest) \<Longrightarrow> bfs_inv (insert (state n) ex) rest"
  by (auto simp: bfs_inv_def)

lemma bfs_body_Next:
  assumes "bfs_body p lim n rest ex k = Next (fr', ex', k')"
  shows "\<not> (lim > 0 \<and> k \<ge> lim) \<and> (\<exists>cs. expand p n = Inr cs \<and>
     bfs_for p (insert (state n) ex) rest cs = Inr fr') \<and> ex' = insert (state n) ex \<and> k' = k"
proof (cases "lim > 0 \<and> k \<ge> lim")
  case True
  with assms show ?thesis by (simp add: bfs_body_def)
next
  case False
  show ?thesis
  proof (cases "expand p n")
    case (Inl e)
    with assms False show ?thesis by (simp add: bfs_body_def)
  next
    case (Inr cs)
    with assms False show ?thesis
      by (cases "bfs_for p (insert (state n) ex) rest cs") (simp_all add: bfs_body_def)
  qed
qed

lemma bfs_body_inv:
  assumes "bfs_body p lim n rest ex k = Next (fr', ex', k')" and "bfs_inv ex (n # rest)"
  shows "bfs_inv ex' fr'"
proof -
  from bfs_body_Next [OF assms(1)] obtain cs where
    run: "bfs_for p (insert (state n) ex) rest cs = Inr fr'"
    and ex': "ex' = insert (state n) ex"
    by blast
  from bfs_for_inv [OF run bfs_pop_inv [OF assms(2)]] show ?thesis by (simp add: ex')
qed

lemma bfs_run_inv:
  "bfs_run p lim st st' \<Longrightarrow> bfs_inv (fst (snd st)) (fst st) \<Longrightarrow> bfs_inv (fst (snd st')) (fst st')"
proof (induction rule: bfs_run.induct)
  case bfs_run_refl
  then show ?case .
next
  case (bfs_run_step n rest ex k st')
  then have "bfs_inv ex (n # rest)" by simp
  with bfs_run_step.hyps(2) show ?case
    by (cases st') (auto dest: bfs_body_inv)
qed

lemma bfs_point_inv:
  assumes "bfs_point p lim st ex fr" and "bfs_inv (fst (snd st)) (fst st)"
  shows "bfs_inv ex fr"
  using assms(1)
proof (cases rule: bfs_point.cases)
  case (bfs_at_head k)
  from bfs_run_inv [OF this assms(2)] show ?thesis by simp
next
  case (bfs_at_pop n k)
  from bfs_run_inv [OF this assms(2)] have "bfs_inv ex (n # fr)" by simp
  then show ?thesis by (auto simp: bfs_inv_def)
next
  case (bfs_at_child n rest ex0 k cs j)
  from bfs_run_inv [OF bfs_at_child(2) assms(2)] have "bfs_inv ex0 (n # rest)" by simp
  then have "bfs_inv (insert (state n) ex0) rest" by (rule bfs_pop_inv)
  with bfs_for_inv [OF bfs_at_child(5)] show ?thesis by (simp add: bfs_at_child(1))
qed

lemma bfs_init_inv: "bfs_inv (fst (snd (bfs_init p))) (fst (bfs_init p))"
  by (simp add: bfs_init_def bfs_inv_def)


subsection \<open>Runs of breadth-first search\<close>

lemma bfs_run_trans:
  "bfs_run p lim st1 st2 \<Longrightarrow> bfs_run p lim st0 st1 \<Longrightarrow> bfs_run p lim st0 st2"
proof (induction rule: bfs_run.induct)
  case bfs_run_refl
  then show ?case .
next
  case (bfs_run_step n rest ex k st')
  from bfs_run_step.IH [OF bfs_run_step.prems] bfs_run_step.hyps(2)
  show ?case by (rule bfs_run.bfs_run_step)
qed

lemma bfs_run_first:
  assumes "bfs_body p lim n rest ex (k + 1) = Next st1" and "bfs_run p lim st1 st2"
  shows "bfs_run p lim (n # rest, ex, k) st2"
proof -
  have "bfs_run p lim (n # rest, ex, k) st1"
    by (rule bfs_run_step [OF bfs_run_refl assms(1)])
  with assms(2) show ?thesis by (rule bfs_run_trans)
qed

lemma bfs_point_run:
  assumes "bfs_point p lim st1 ex fr" and "bfs_run p lim st0 st1"
  shows "bfs_point p lim st0 ex fr"
  using assms(1)
proof (cases rule: bfs_point.cases)
  case (bfs_at_head k)
  from bfs_run_trans [OF this assms(2)] show ?thesis by (rule bfs_point.bfs_at_head)
next
  case (bfs_at_pop n k)
  from bfs_run_trans [OF this assms(2)] show ?thesis by (rule bfs_point.bfs_at_pop)
next
  case (bfs_at_child n rest ex0 k cs j)
  from bfs_run_trans [OF bfs_at_child(2) assms(2)] bfs_at_child(3,4,5)
  show ?thesis unfolding bfs_at_child(1) by (rule bfs_point.bfs_at_child)
qed

lemma bfs_run_explored:
  "bfs_run p lim st st' \<Longrightarrow> fst (snd st) \<subseteq> fst (snd st')"
proof (induction rule: bfs_run.induct)
  case bfs_run_refl
  show ?case by simp
next
  case (bfs_run_step n rest ex k st')
  obtain fr' ex' k' where st': "st' = (fr', ex', k')" by (cases st')
  from bfs_body_Next [OF bfs_run_step.hyps(2) [unfolded st']]
  have "ex' = insert (state n) ex" by blast
  with bfs_run_step.IH show ?case by (auto simp: st')
qed

lemma bfs_point_explored:
  assumes "bfs_point p lim st ex fr"
  shows "fst (snd st) \<subseteq> ex"
  using assms
proof (cases rule: bfs_point.cases)
  case (bfs_at_head k)
  from bfs_run_explored [OF this] show ?thesis by simp
next
  case (bfs_at_pop n k)
  from bfs_run_explored [OF this] show ?thesis by simp
next
  case (bfs_at_child n rest ex0 k cs j)
  from bfs_run_explored [OF bfs_at_child(2)] show ?thesis by (auto simp: bfs_at_child(1))
qed

lemma bfs_run_loop:
  "bfs_run p lim st st' \<Longrightarrow>
     bfs_loop p lim (fst st) (fst (snd st)) (snd (snd st)) =
     bfs_loop p lim (fst st') (fst (snd st')) (snd (snd st'))"
proof (induction rule: bfs_run.induct)
  case bfs_run_refl
  show ?case by simp
next
  case (bfs_run_step n rest ex k st')
  have "bfs_loop p lim (n # rest) ex k = bfs_loop p lim (fst st') (fst (snd st')) (snd (snd st'))"
    by (simp add: bfs_loop.simps [of p lim "n # rest"] bfs_run_step.hyps(2))
  with bfs_run_step.IH show ?case by simp
qed

lemma bfs_stops_self:
  "bfs_stops p lim st r \<Longrightarrow> \<exists>st'. bfs_run p lim st st' \<and> bfs_stops p lim st' r"
  using bfs_run_refl [of p lim st] by (intro exI conjI)

lemma bfs_loop_stops:
  assumes "bfs_loop p lim fr ex k = Some r"
  shows "\<exists>st'. bfs_run p lim (fr, ex, k) st' \<and> bfs_stops p lim st' r"
proof (rule bfs_loop.raw_induct
    [where P = "\<lambda>p lim fr ex k r. \<exists>st'. bfs_run p lim (fr, ex, k) st' \<and> bfs_stops p lim st' r",
      OF _ assms])
  fix loop :: "('a, 'b) problem \<Rightarrow> int \<Rightarrow> ('a, 'b) node list \<Rightarrow> 'a set \<Rightarrow> int
    \<Rightarrow> (error + ('a, 'b) node option) option"
  fix p lim fr ex k r
  assume IH: "\<And>p lim fr ex k r. loop p lim fr ex k = Some r \<Longrightarrow>
    \<exists>st'. bfs_run p lim (fr, ex, k) st' \<and> bfs_stops p lim st' r"
  assume unfolded: "(case fr of
        [] \<Rightarrow> Some (Inr None)
      | n # rest \<Rightarrow>
          (case bfs_body p lim n rest ex (k + 1) of
             Raise e \<Rightarrow> Some (Inl e)
           | Return r \<Rightarrow> Some (Inr r)
           | Next st \<Rightarrow> loop p lim (fst st) (fst (snd st)) (snd (snd st)))) = Some r"
  show "\<exists>st'. bfs_run p lim (fr, ex, k) st' \<and> bfs_stops p lim st' r"
  proof (cases fr)
    case Nil
    with unfolded have "bfs_stops p lim (fr, ex, k) r" by (simp add: bfs_stops_def)
    then show ?thesis by (rule bfs_stops_self)
  next
    case (Cons n rest)
    show ?thesis
    proof (cases "bfs_body p lim n rest ex (k + 1)")
      case (Raise e)
      with unfolded Cons have "bfs_stops p lim (fr, ex, k) r" by (simp add: bfs_stops_def)
      then show ?thesis by (rule bfs_stops_self)
    next
      case (Return x)
      with unfolded Cons have "bfs_stops p lim (fr, ex, k) r" by (simp add: bfs_stops_def)
      then show ?thesis by (rule bfs_stops_self)
    next
      case (Next st1)
      with unfolded Cons have "loop p lim (fst st1) (fst (snd st1)) (snd (snd st1)) = Some r"
        by simp
      from IH [OF this] obtain st' where
        run: "bfs_run p lim (fst st1, fst (snd st1), snd (snd st1)) st'" and
        stops: "bfs_stops p lim st' r" by blast
      from run have "bfs_run p lim st1 st'" by simp
      from bfs_run_first [OF Next this] stops Cons show ?thesis by blast
    qed
  qed
qed


subsection \<open>The priority queue\<close>

lemma pq_min_in: "pq_min best es \<in> set (best # es)"
proof (induction es arbitrary: best)
  case Nil
  show ?case by simp
next
  case (Cons e es)
  from Cons.IH [of "if entry_lt e best then e else best"] show ?case by auto
qed

lemma pq_pop_Inr:
  assumes "pq_pop q = Inr (n, rest)"
  shows "\<exists>e \<in> set q. n = snd e \<and> rest = remove1 e q"
proof (cases q)
  case Nil
  with assms show ?thesis by (simp add: pq_pop_def)
next
  case (Cons e es)
  with assms have "n = snd (pq_min e es)" and "rest = remove1 (pq_min e es) q"
    by (simp_all add: pq_pop_def Let_def)
  with pq_min_in [of e es] Cons show ?thesis by blast
qed

lemma pq_pop_nonempty: "q \<noteq> [] \<Longrightarrow> \<exists>n rest. pq_pop q = Inr (n, rest)"
  by (cases q) (simp_all add: pq_pop_def Let_def)

lemma distinct_map_remove1:
  assumes "distinct (map g q)" and "e \<in> set q"
  shows "distinct (map g (remove1 e q)) \<and> g ` set (remove1 e q) = g ` set q - {g e}"
proof -
  from assms(1) have d: "distinct q" and inj: "inj_on g (set q)"
    by (simp_all add: distinct_map)
  from d have s: "set (remove1 e q) = set q - {e}" by simp
  from d inj have "distinct (map g (remove1 e q))"
    by (simp add: distinct_map inj_on_def)
  moreover from inj assms(2) have "g ` (set q - {e}) = g ` set q - {g e}"
    by (auto simp: inj_on_def)
  ultimately show ?thesis by (simp add: s)
qed

lemma pq_pop_inv:
  assumes "pq_inv ex q" and "pq_pop q = Inr (n, rest)"
  shows "pq_inv (insert (state n) ex) rest"
proof -
  from pq_pop_Inr [OF assms(2)] obtain e where e: "e \<in> set q" and n: "n = snd e"
    and rest: "rest = remove1 e q" by blast
  from assms(1) have d: "distinct (map (\<lambda>e. state (snd e)) q)" by (simp add: pq_inv_def)
  from distinct_map_remove1 [OF d e] assms(1) show ?thesis
    by (auto simp: pq_inv_def rest n)
qed

lemma del_first_filter:
  "distinct (map g q) \<Longrightarrow> del_first (\<lambda>e. g e = k) q = filter (\<lambda>e. g e \<noteq> k) q"
proof (induction q)
  case Nil
  show ?case by simp
next
  case (Cons x xs)
  show ?case
  proof (cases "g x = k")
    case True
    with Cons.prems have "\<forall>e \<in> set xs. g e \<noteq> k" by (auto simp: image_iff)
    then have "filter (\<lambda>e. g e \<noteq> k) xs = xs" by (simp add: filter_id_conv)
    with True show ?thesis by simp
  next
    case False
    with Cons show ?thesis by simp
  qed
qed

lemma pq_getitem_contains:
  "pq_contains q c \<Longrightarrow> \<exists>e \<in> set q. node_eq (snd e) c \<and> pq_getitem q c = Inr (fst e)"
proof (induction q)
  case Nil
  then show ?case by (simp add: pq_contains_def)
next
  case (Cons x xs)
  then show ?case by (cases "node_eq (snd x) c") (auto simp: pq_contains_def pq_getitem_def)
qed

lemma pq_getitem_Inr_contains: "pq_getitem q c = Inr v \<Longrightarrow> pq_contains q c"
  by (auto simp: pq_getitem_def pq_contains_def list_ex_iff find_Some_iff
      split: option.splits)

lemma bf_child_new:
  "state c \<notin> ex \<Longrightarrow> \<not> pq_contains q c \<Longrightarrow> bf_child f ex q c = Inr (q @ [(f c, c)])"
  by (simp add: bf_child_def pq_append_def)

lemma bf_child_explored:
  "state c \<in> ex \<Longrightarrow> \<not> pq_contains q c \<Longrightarrow> bf_child f ex q c = Inr q"
  by (simp add: bf_child_def)

lemma bf_child_old:
  assumes "pq_getitem q c = Inr f_old"
  shows "bf_child f ex q c =
     Inr (if f c < f_old then del_first (\<lambda>e. node_eq (snd e) c) q @ [(f c, c)] else q)"
proof -
  from assms have "pq_contains q c" by (rule pq_getitem_Inr_contains)
  with assms show ?thesis
    by (simp add: bf_child_def pq_delitem_def pq_append_def)
qed

lemma bf_child_Inr: "\<exists>q'. bf_child f ex q c = Inr q'"
proof (cases "pq_contains q c")
  case True
  from pq_getitem_contains [OF this] obtain v where "pq_getitem q c = Inr v" by blast
  from bf_child_old [OF this] show ?thesis by blast
next
  case False
  then show ?thesis by (cases "state c \<in> ex") (simp_all add: bf_child_new bf_child_explored)
qed

lemma bf_child_inv:
  assumes "pq_inv ex q" and "bf_child f ex q c = Inr q'"
  shows "pq_inv ex q'"
proof (cases "pq_contains q c")
  case False
  show ?thesis
  proof (cases "state c \<in> ex")
    case True
    with False assms show ?thesis by (simp add: bf_child_explored)
  next
    case notin: False
    with False assms(2) have "q' = q @ [(f c, c)]" by (simp add: bf_child_new)
    with assms(1) False notin show ?thesis by (auto simp: pq_inv_def pq_contains_iff)
  qed
next
  case True
  from pq_getitem_contains [OF this] obtain v where v: "pq_getitem q c = Inr v" by blast
  from assms(1) have d: "distinct (map (\<lambda>e. state (snd e)) q)" by (simp add: pq_inv_def)
  from True assms(1) have notin: "state c \<notin> ex" by (auto simp: pq_inv_def pq_contains_iff)
  have del: "del_first (\<lambda>e. node_eq (snd e) c) q = filter (\<lambda>e. state (snd e) \<noteq> state c) q"
    using del_first_filter [OF d, of "state c"] by (simp add: node_eq_def)
  show ?thesis
  proof (cases "f c < v")
    case False
    with assms(2) bf_child_old [OF v, of f ex] have "q' = q" by simp
    with assms(1) show ?thesis by simp
  next
    case less: True
    with assms(2) bf_child_old [OF v, of f ex]
    have "q' = filter (\<lambda>e. state (snd e) \<noteq> state c) q @ [(f c, c)]" by (simp add: del)
    with assms(1) notin show ?thesis by (auto simp: pq_inv_def distinct_map_filter)
  qed
qed

lemma bf_for_inv:
  "bf_for f ex q cs = Inr q' \<Longrightarrow> pq_inv ex q \<Longrightarrow> pq_inv ex q'"
proof (induction cs arbitrary: q)
  case Nil
  then show ?case by simp
next
  case (Cons c cs)
  from bf_child_Inr obtain q1 where q1: "bf_child f ex q c = Inr q1" by blast
  with Cons.prems(1) have "bf_for f ex q1 cs = Inr q'" by simp
  then show ?case using bf_child_inv [OF Cons.prems(2) q1] by (rule Cons.IH)
qed

lemma bf_for_Inr: "\<exists>q'. bf_for f ex q cs = Inr q'"
proof (induction cs arbitrary: q)
  case Nil
  show ?case by simp
next
  case (Cons c cs)
  from bf_child_Inr obtain q1 where q1: "bf_child f ex q c = Inr q1" by blast
  with Cons.IH [of q1] show ?case by simp
qed

lemma bf_body_Next:
  assumes "bf_body p f fr ex k = Next (fr', ex', k')"
  shows "\<exists>n rest cs. pq_pop fr = Inr (n, rest) \<and> \<not> goal_test p (state n) \<and>
     expand p n = Inr cs \<and> bf_for f (insert (state n) ex) rest cs = Inr fr' \<and>
     ex' = insert (state n) ex \<and> k' = k"
proof (cases "pq_pop fr")
  case (Inl e)
  with assms show ?thesis by (simp add: bf_body_def)
next
  case (Inr popped)
  obtain n rest where popped: "popped = (n, rest)" by (cases popped)
  show ?thesis
  proof (cases "goal_test p (state n)")
    case True
    with assms Inr popped show ?thesis by (simp add: bf_body_def)
  next
    case False
    show ?thesis
    proof (cases "expand p n")
      case (Inl e)
      with assms Inr popped False show ?thesis by (simp add: bf_body_def)
    next
      case cs: (Inr cs)
      with assms Inr popped False show ?thesis
        by (cases "bf_for f (insert (state n) ex) rest cs") (simp_all add: bf_body_def)
    qed
  qed
qed


subsection \<open>Runs of best-first search\<close>

lemma bf_body_inv:
  assumes "bf_body p f fr ex k = Next (fr', ex', k')" and "pq_inv ex fr"
  shows "pq_inv ex' fr'"
proof -
  from bf_body_Next [OF assms(1)] obtain n rest cs where
    pop: "pq_pop fr = Inr (n, rest)" and
    run: "bf_for f (insert (state n) ex) rest cs = Inr fr'" and
    ex': "ex' = insert (state n) ex"
    by blast
  from bf_for_inv [OF run pq_pop_inv [OF assms(2) pop]] show ?thesis by (simp add: ex')
qed

lemma bf_run_inv:
  "bf_run p f st st' \<Longrightarrow> pq_inv (fst (snd st)) (fst st) \<Longrightarrow> pq_inv (fst (snd st')) (fst st')"
proof (induction rule: bf_run.induct)
  case bf_run_refl
  then show ?case .
next
  case (bf_run_step fr ex k st')
  then have inv: "pq_inv ex fr" by simp
  obtain fr' ex' k' where st': "st' = (fr', ex', k')" by (cases st')
  from bf_body_inv [OF bf_run_step.hyps(3) [unfolded st'] inv] show ?case by (simp add: st')
qed

lemma bf_point_inv:
  assumes "bf_point p f st ex fr" and "pq_inv (fst (snd st)) (fst st)"
  shows "pq_inv ex fr"
  using assms(1)
proof (cases rule: bf_point.cases)
  case (bf_at_head k)
  from bf_run_inv [OF this assms(2)] show ?thesis by simp
next
  case (bf_at_pop fr0 k n)
  from bf_run_inv [OF bf_at_pop(1) assms(2)] have "pq_inv ex fr0" by simp
  from pq_pop_inv [OF this bf_at_pop(2)] show ?thesis by (auto simp: pq_inv_def)
next
  case (bf_at_child fr0 ex0 k n rest cs j)
  from bf_run_inv [OF bf_at_child(2) assms(2)] have "pq_inv ex0 fr0" by simp
  from bf_for_inv [OF bf_at_child(6) pq_pop_inv [OF this bf_at_child(3)]]
  show ?thesis by (simp add: bf_at_child(1))
qed

lemma bf_init_inv: "pq_inv (fst (snd (bf_init p f))) (fst (bf_init p f))"
  by (simp add: bf_init_def pq_inv_def pq_append_def)

lemma bf_run_trans:
  "bf_run p f st1 st2 \<Longrightarrow> bf_run p f st0 st1 \<Longrightarrow> bf_run p f st0 st2"
proof (induction rule: bf_run.induct)
  case bf_run_refl
  then show ?case .
next
  case (bf_run_step fr ex k st')
  from bf_run_step.IH [OF bf_run_step.prems] bf_run_step.hyps(2,3)
  show ?case by (rule bf_run.bf_run_step)
qed

lemma bf_run_first:
  assumes "fr \<noteq> []" and "bf_body p f fr ex (k + 1) = Next st1" and "bf_run p f st1 st2"
  shows "bf_run p f (fr, ex, k) st2"
proof -
  have "bf_run p f (fr, ex, k) st1"
    by (rule bf_run_step [OF bf_run_refl assms(1,2)])
  with assms(3) show ?thesis by (rule bf_run_trans)
qed

lemma bf_point_run:
  assumes "bf_point p f st1 ex fr" and "bf_run p f st0 st1"
  shows "bf_point p f st0 ex fr"
  using assms(1)
proof (cases rule: bf_point.cases)
  case (bf_at_head k)
  from bf_run_trans [OF this assms(2)] show ?thesis by (rule bf_point.bf_at_head)
next
  case (bf_at_pop fr0 k n)
  from bf_run_trans [OF bf_at_pop(1) assms(2)] bf_at_pop(2)
  show ?thesis by (rule bf_point.bf_at_pop)
next
  case (bf_at_child fr0 ex0 k n rest cs j)
  from bf_run_trans [OF bf_at_child(2) assms(2)] bf_at_child(3,4,5,6)
  show ?thesis unfolding bf_at_child(1) by (rule bf_point.bf_at_child)
qed

lemma bf_run_explored:
  "bf_run p f st st' \<Longrightarrow> fst (snd st) \<subseteq> fst (snd st')"
proof (induction rule: bf_run.induct)
  case bf_run_refl
  show ?case by simp
next
  case (bf_run_step fr ex k st')
  obtain fr' ex' k' where st': "st' = (fr', ex', k')" by (cases st')
  from bf_body_Next [OF bf_run_step.hyps(3) [unfolded st']]
  obtain n rest where "pq_pop fr = Inr (n, rest)" and "ex' = insert (state n) ex" by blast
  with bf_run_step.IH show ?case by (auto simp: st')
qed

lemma bf_point_explored:
  assumes "bf_point p f st ex fr"
  shows "fst (snd st) \<subseteq> ex"
  using assms
proof (cases rule: bf_point.cases)
  case (bf_at_head k)
  from bf_run_explored [OF this] show ?thesis by simp
next
  case (bf_at_pop fr0 k n)
  from bf_run_explored [OF bf_at_pop(1)] show ?thesis by simp
next
  case (bf_at_child fr0 ex0 k n rest cs j)
  from bf_run_explored [OF bf_at_child(2)] show ?thesis by (auto simp: bf_at_child(1))
qed

lemma bf_run_loop:
  "bf_run p f st st' \<Longrightarrow>
     bf_loop p f (fst st) (fst (snd st)) (snd (snd st)) =
     bf_loop p f (fst st') (fst (snd st')) (snd (snd st'))"
proof (induction rule: bf_run.induct)
  case bf_run_refl
  show ?case by simp
next
  case (bf_run_step fr ex k st')
  from bf_run_step.hyps(2) obtain e es where fr: "fr = e # es" by (cases fr) auto
  have "bf_loop p f fr ex k = bf_loop p f (fst st') (fst (snd st')) (snd (snd st'))"
    using bf_run_step.hyps(3) unfolding fr by (simp add: bf_loop.simps [of p f "e # es"])
  with bf_run_step.IH show ?case by simp
qed

lemma bf_stops_self:
  "bf_stops p f st r \<Longrightarrow> \<exists>st'. bf_run p f st st' \<and> bf_stops p f st' r"
  using bf_run_refl [of p f st] by (intro exI conjI)

lemma bf_loop_stops:
  assumes "bf_loop p f fr ex k = Some r"
  shows "\<exists>st'. bf_run p f (fr, ex, k) st' \<and> bf_stops p f st' r"
proof (rule bf_loop.raw_induct
    [where P = "\<lambda>p f fr ex k r. \<exists>st'. bf_run p f (fr, ex, k) st' \<and> bf_stops p f st' r",
      OF _ assms])
  fix loop :: "('a, 'b) problem \<Rightarrow> (('a, 'b) node \<Rightarrow> int) \<Rightarrow> ('a, 'b) pq \<Rightarrow> 'a set \<Rightarrow> int
    \<Rightarrow> (error + ('a, 'b) node option) option"
  fix p f fr ex k r
  assume IH: "\<And>p f fr ex k r. loop p f fr ex k = Some r \<Longrightarrow>
    \<exists>st'. bf_run p f (fr, ex, k) st' \<and> bf_stops p f st' r"
  assume unfolded: "(case fr of
        [] \<Rightarrow> Some (Inr None)
      | e # es \<Rightarrow>
          (case bf_body p f fr ex (k + 1) of
             Raise e \<Rightarrow> Some (Inl e)
           | Return r \<Rightarrow> Some (Inr r)
           | Next st \<Rightarrow> loop p f (fst st) (fst (snd st)) (snd (snd st)))) = Some r"
  show "\<exists>st'. bf_run p f (fr, ex, k) st' \<and> bf_stops p f st' r"
  proof (cases fr)
    case Nil
    with unfolded have "bf_stops p f (fr, ex, k) r" by (simp add: bf_stops_def)
    then show ?thesis by (rule bf_stops_self)
  next
    case (Cons e es)
    show ?thesis
    proof (cases "bf_body p f fr ex (k + 1)")
      case (Raise e)
      with unfolded Cons have "bf_stops p f (fr, ex, k) r" by (simp add: bf_stops_def)
      then show ?thesis by (rule bf_stops_self)
    next
      case (Return x)
      with unfolded Cons have "bf_stops p f (fr, ex, k) r" by (simp add: bf_stops_def)
      then show ?thesis by (rule bf_stops_self)
    next
      case (Next st1)
      with unfolded Cons have "loop p f (fst st1) (fst (snd st1)) (snd (snd st1)) = Some r"
        by simp
      from IH [OF this] obtain st' where
        run: "bf_run p f (fst st1, fst (snd st1), snd (snd st1)) st'" and
        stops: "bf_stops p f st' r" by blast
      from run have "bf_run p f st1 st'" by simp
      moreover from Cons have "fr \<noteq> []" by simp
      ultimately have "bf_run p f (fr, ex, k) st'" using Next by (metis bf_run_first)
      with stops show ?thesis by blast
    qed
  qed
qed

section \<open>Properties of the two searches\<close>

lemma pq_getitem_entry:
  assumes "distinct (map (\<lambda>e. state (snd e)) q)" and "(v, m) \<in> set q" and "state m = state c"
  shows "pq_getitem q c = Inr v"
  using assms
proof (induction q)
  case Nil
  then show ?case by simp
next
  case (Cons x xs)
  show ?case
  proof (cases "x = (v, m)")
    case True
    with Cons.prems(3) show ?thesis by (simp add: pq_getitem_def node_eq_def)
  next
    case False
    with Cons.prems have in_xs: "(v, m) \<in> set xs" by simp
    with Cons.prems(1,3) have "state (snd x) \<noteq> state c" by (auto simp: image_iff)
    moreover from Cons.IH [OF _ in_xs Cons.prems(3)] Cons.prems(1)
    have "pq_getitem xs c = Inr v" by simp
    ultimately show ?thesis by (simp add: pq_getitem_def node_eq_def)
  qed
qed

text \<open>
  C3. At every point of breadth-first search and of best-first search on any problem (at
  the head of the \<open>while\<close> loop, after the pop, and after each child of the \<open>for\<close>
  loop), no two entries of the frontier have the same state and no state of a frontier
  entry is in the explored set.
\<close>

theorem dedup_invariant:
  "(bfs_point p lim (bfs_init p) ex fr \<longrightarrow>
      distinct (map state fr) \<and> state ` set fr \<inter> ex = {}) \<and>
   (bf_point p f (bf_init p f) ex' q \<longrightarrow>
      distinct (map (\<lambda>e. state (snd e)) q) \<and> (\<lambda>e. state (snd e)) ` set q \<inter> ex' = {})"
proof (intro conjI impI)
  assume "bfs_point p lim (bfs_init p) ex fr"
  from bfs_point_inv [OF this bfs_init_inv]
  show "distinct (map state fr)" and "state ` set fr \<inter> ex = {}"
    by (simp_all add: bfs_inv_def)
next
  assume "bf_point p f (bf_init p f) ex' q"
  from bf_point_inv [OF this bf_init_inv]
  show "distinct (map (\<lambda>e. state (snd e)) q)" and "(\<lambda>e. state (snd e)) ` set q \<inter> ex' = {}"
    by (simp_all add: pq_inv_def)
qed

text \<open>
  C4. At every point of best-first search, for a child \<open>c\<close> whose state has an entry in
  the frontier with stored score \<open>f_old\<close>: when \<open>f c < f_old\<close> the loop body leaves the
  frontier without the entry of that state and with the new entry \<open>(f c, c)\<close>; otherwise
  it leaves the frontier as it is.
\<close>

theorem frontier_replacement:
  "bf_point p f (bf_init p f) ex q \<and> (f_old, m) \<in> set q \<and> state m = state c \<longrightarrow>
     (f c < f_old \<longrightarrow>
        bf_child f ex q c = Inr (filter (\<lambda>e. state (snd e) \<noteq> state c) q @ [(f c, c)])) \<and>
     (\<not> f c < f_old \<longrightarrow> bf_child f ex q c = Inr q)"
proof (intro impI, elim conjE)
  assume point: "bf_point p f (bf_init p f) ex q" and entry: "(f_old, m) \<in> set q"
    and same: "state m = state c"
  from bf_point_inv [OF point bf_init_inv]
  have d: "distinct (map (\<lambda>e. state (snd e)) q)" by (simp add: pq_inv_def)
  have del: "del_first (\<lambda>e. node_eq (snd e) c) q = filter (\<lambda>e. state (snd e) \<noteq> state c) q"
    using del_first_filter [OF d, of "state c"] by (simp add: node_eq_def)
  from pq_getitem_entry [OF d entry same] have "pq_getitem q c = Inr f_old" .
  from bf_child_old [OF this, of f ex] show "(f c < f_old \<longrightarrow>
        bf_child f ex q c = Inr (filter (\<lambda>e. state (snd e) \<noteq> state c) q @ [(f c, c)])) \<and>
     (\<not> f c < f_old \<longrightarrow> bf_child f ex q c = Inr q)"
    by (simp add: del)
qed

text \<open>
  C5. In both searches a state that is in the explored set at some loop head is in the
  explored set and in no frontier entry at every later point of the search; and a child
  whose state is explored leaves the frontier unchanged (in breadth-first search the
  \<open>for\<close> loop goes on with the same frontier, in best-first search the body for this
  child returns the frontier it was given).
\<close>

theorem explored_never_reinserted:
  "(bfs_run p lim (bfs_init p) (fr, ex, k) \<and> s \<in> ex \<and> bfs_point p lim (fr, ex, k) ex' fr' \<longrightarrow>
      s \<in> ex' \<and> s \<notin> state ` set fr') \<and>
   (state c \<in> exa \<longrightarrow> bfs_for p exa fra (c # cs) = bfs_for p exa fra cs) \<and>
   (bf_run p f (bf_init p f) (q, exb, kb) \<and> sb \<in> exb \<and> bf_point p f (q, exb, kb) exb' q' \<longrightarrow>
      sb \<in> exb' \<and> sb \<notin> (\<lambda>e. state (snd e)) ` set q') \<and>
   (bf_point p f (bf_init p f) exc qc \<and> state cc \<in> exc \<longrightarrow> bf_child f exc qc cc = Inr qc)"
proof (intro conjI impI; (elim conjE)?)
  assume run: "bfs_run p lim (bfs_init p) (fr, ex, k)" and s: "s \<in> ex"
    and point: "bfs_point p lim (fr, ex, k) ex' fr'"
  from bfs_point_explored [OF point] s show "s \<in> ex'" by auto
  moreover from bfs_point_inv [OF bfs_point_run [OF point run] bfs_init_inv]
  have "state ` set fr' \<inter> ex' = {}" by (simp add: bfs_inv_def)
  ultimately show "s \<notin> state ` set fr'" by blast
next
  assume "state c \<in> exa"
  then show "bfs_for p exa fra (c # cs) = bfs_for p exa fra cs" by simp
next
  assume run: "bf_run p f (bf_init p f) (q, exb, kb)" and s: "sb \<in> exb"
    and point: "bf_point p f (q, exb, kb) exb' q'"
  from bf_point_explored [OF point] s show "sb \<in> exb'" by auto
  moreover from bf_point_inv [OF bf_point_run [OF point run] bf_init_inv]
  have "(\<lambda>e. state (snd e)) ` set q' \<inter> exb' = {}" by (simp add: pq_inv_def)
  ultimately show "sb \<notin> (\<lambda>e. state (snd e)) ` set q'" by blast
next
  assume point: "bf_point p f (bf_init p f) exc qc" and c: "state cc \<in> exc"
  from bf_point_inv [OF point bf_init_inv] c have "\<not> pq_contains qc cc"
    by (auto simp: pq_inv_def pq_contains_iff)
  with c show "bf_child f exc qc cc = Inr qc" by (rule bf_child_explored)
qed


lemma bfs_for_Inl:
  "bfs_for p ex fr cs = Inl c \<Longrightarrow> c \<in> set cs \<and> goal_test p (state c) \<and> state c \<notin> ex"
proof (induction cs arbitrary: fr)
  case Nil
  then show ?case by simp
next
  case (Cons x xs)
  then show ?case by (auto split: if_splits)
qed

lemma bfs_body_Return:
  assumes "bfs_body p lim n rest ex k = Return x"
  shows "(lim > 0 \<and> k \<ge> lim \<and> x = Some n) \<or>
     (\<not> (lim > 0 \<and> k \<ge> lim) \<and>
      (\<exists>cs c. expand p n = Inr cs \<and> bfs_for p (insert (state n) ex) rest cs = Inl c \<and>
         x = Some c))"
proof (cases "lim > 0 \<and> k \<ge> lim")
  case True
  with assms show ?thesis by (simp add: bfs_body_def)
next
  case False
  show ?thesis
  proof (cases "expand p n")
    case (Inl e)
    with assms False show ?thesis by (simp add: bfs_body_def)
  next
    case (Inr cs)
    with assms False show ?thesis
      by (cases "bfs_for p (insert (state n) ex) rest cs") (simp_all add: bfs_body_def)
  qed
qed

lemma bfs_run_counter:
  assumes "bfs_run p lim st st'" and "st = bfs_init p"
  shows "0 \<le> snd (snd st') \<and> (0 < lim \<longrightarrow> snd (snd st') < lim) \<and>
     finite (fst (snd st')) \<and> int (card (fst (snd st'))) = snd (snd st')"
  using assms
proof (induction rule: bfs_run.induct)
  case bfs_run_refl
  then show ?case by (simp add: bfs_init_def)
next
  case (bfs_run_step n rest ex k st')
  obtain fr' ex' k' where st': "st' = (fr', ex', k')" by (cases st')
  from bfs_body_Next [OF bfs_run_step.hyps(2) [unfolded st']]
  have lim: "\<not> (lim > 0 \<and> k + 1 \<ge> lim)" and ex': "ex' = insert (state n) ex" and k': "k' = k + 1"
    by blast+
  from bfs_run_step.prems bfs_run_step.hyps(1) have "bfs_inv ex (n # rest)"
    using bfs_run_inv [OF bfs_run_step.hyps(1)] bfs_init_inv [of p] by simp
  then have new: "state n \<notin> ex" by (auto simp: bfs_inv_def)
  from bfs_run_step.IH [OF bfs_run_step.prems]
  have "0 \<le> k" and "finite ex" and "int (card ex) = k" by simp_all
  with lim new show ?case by (auto simp: st' ex' k')
qed

text \<open>
  C9. Breadth-first search with a positive step limit, from a root that is no goal: when
  the loop comes to its head with \<open>step_num = step_limits - 1\<close>, the search returns the
  node at the front of the frontier, whatever its state. \<open>step_num\<close> at a loop head is
  the number of passes made and of states explored so far, and stays below a positive
  limit. With a limit that is not positive, every node returned satisfies \<open>goal_test\<close>:
  the early return does not happen.
\<close>

theorem step_limit_return:
  "(0 < lim \<and> \<not> goal_test p (initial p) \<and> bfs_run p lim (bfs_init p) (n # rest, ex, lim - 1) \<longrightarrow>
      breadth_first_graph_search p lim = Some (Inr (Some n))) \<and>
   (bfs_run p lim (bfs_init p) (fr, ex', k) \<longrightarrow>
      0 \<le> k \<and> (0 < lim \<longrightarrow> k < lim) \<and> int (card ex') = k) \<and>
   (lim \<le> 0 \<and> breadth_first_graph_search p lim = Some (Inr (Some n')) \<longrightarrow>
      goal_test p (state n'))"
proof (intro conjI impI; (elim conjE)?)
  assume lim: "0 < lim" and root: "\<not> goal_test p (initial p)"
    and run: "bfs_run p lim (bfs_init p) (n # rest, ex, lim - 1)"
  from lim have "bfs_body p lim n rest ex (lim - 1 + 1) = Return (Some n)"
    by (simp add: bfs_body_def)
  then have "bfs_loop p lim (n # rest) ex (lim - 1) = Some (Inr (Some n))"
    by (simp add: bfs_loop.simps [of p lim "n # rest"])
  with bfs_run_loop [OF run] have "bfs_loop p lim [root p] {} 0 = Some (Inr (Some n))"
    by (simp add: bfs_init_def)
  with root show "breadth_first_graph_search p lim = Some (Inr (Some n))"
    by (simp add: breadth_first_graph_search_def root_def state_Node_init)
next
  assume run: "bfs_run p lim (bfs_init p) (fr, ex', k)"
  from bfs_run_counter [OF run refl]
  show "0 \<le> k" and "0 < lim \<Longrightarrow> k < lim" and "int (card ex') = k" by simp_all
next
  assume lim: "lim \<le> 0" and ret: "breadth_first_graph_search p lim = Some (Inr (Some n'))"
  show "goal_test p (state n')"
  proof (cases "goal_test p (initial p)")
    case True
    with ret show ?thesis
      by (simp add: breadth_first_graph_search_def state_Node_init) (auto simp: state_Node_init)
  next
    case False
    with ret have "bfs_loop p lim [root p] {} 0 = Some (Inr (Some n'))"
      by (simp add: breadth_first_graph_search_def root_def state_Node_init)
    from bfs_loop_stops [OF this] obtain st' where
      stops: "bfs_stops p lim st' (Inr (Some n'))" by blast
    obtain fr1 ex1 k1 where st': "st' = (fr1, ex1, k1)" by (cases st')
    from stops obtain m rest1 where fr1: "fr1 = m # rest1"
      by (cases fr1) (simp_all add: bfs_stops_def st')
    from stops have "bfs_body p lim m rest1 ex1 (k1 + 1) = Return (Some n')"
      by (cases "bfs_body p lim m rest1 ex1 (k1 + 1)") (simp_all add: bfs_stops_def st' fr1)
    from bfs_body_Return [OF this] lim obtain cs where
      "bfs_for p (insert (state m) ex1) rest1 cs = Inl n'" by auto
    from bfs_for_Inl [OF this] show ?thesis by simp
  qed
qed

lemma diamond_bfs_step:
  "bfs_body (diamond 3) 2 (root (diamond 3)) [] {} (0 + 1) =
     Next ([Node 1 (Some (Node 0 None None 0 0)) (Some 1) 1 1,
            Node 2 (Some (Node 0 None None 0 0)) (Some 2) 5 1], {0}, 1)"
  by code_simp

lemma diamond_bfs_run:
  "bfs_run (diamond 3) 2 (bfs_init (diamond 3))
     ([Node 1 (Some (Node 0 None None 0 0)) (Some 1) 1 1,
       Node 2 (Some (Node 0 None None 0 0)) (Some 2) 5 1], {0}, 1)"
proof -
  have "bfs_run (diamond 3) 2 (bfs_init (diamond 3)) ([root (diamond 3)], {}, 0)"
    unfolding bfs_init_def by (rule bfs_run_refl)
  then show ?thesis using diamond_bfs_step by (rule bfs_run_step)
qed

lemma diamond_bf_step:
  "bf_body (diamond 3) node.path_cost [(0, root (diamond 3))] {} (0 + 1) =
     Next ([(1, Node 1 (Some (Node 0 None None 0 0)) (Some 1) 1 1),
            (5, Node 2 (Some (Node 0 None None 0 0)) (Some 2) 5 1)], {0}, 1)"
  by code_simp

lemma diamond_bf_run:
  "bf_run (diamond 3) node.path_cost (bf_init (diamond 3) node.path_cost)
     ([(1, Node 1 (Some (Node 0 None None 0 0)) (Some 1) 1 1),
       (5, Node 2 (Some (Node 0 None None 0 0)) (Some 2) 5 1)], {0}, 1)"
proof -
  have init: "bf_init (diamond 3) node.path_cost = ([(0, root (diamond 3))], {}, 0)"
    by (simp add: bf_init_def pq_append_def root_def Node_init_def)
  have "bf_run (diamond 3) node.path_cost (bf_init (diamond 3) node.path_cost)
     ([(0, root (diamond 3))], {}, 0)"
    unfolding init by (rule bf_run_refl)
  then show ?thesis
  proof (rule bf_run_step)
    show "[(0 :: int, root (diamond 3))] \<noteq> []" by simp
    show "bf_body (diamond 3) node.path_cost [(0, root (diamond 3))] {} (0 + 1) =
      Next ([(1, Node 1 (Some (Node 0 None None 0 0)) (Some 1) 1 1),
             (5, Node 2 (Some (Node 0 None None 0 0)) (Some 2) 5 1)], {0}, 1)"
      by (rule diamond_bf_step)
  qed
qed

theorem step_limit_return_witness:
  "(0::int) < 2 \<and> \<not> goal_test (diamond 3) (initial (diamond 3)) \<and>
   bfs_run (diamond 3) 2 (bfs_init (diamond 3))
     ([Node 1 (Some (Node 0 None None 0 0)) (Some 1) 1 1,
       Node 2 (Some (Node 0 None None 0 0)) (Some 2) 5 1], {0}, 2 - 1) \<and>
   breadth_first_graph_search (diamond 3) 2 =
     Some (Inr (Some (Node 1 (Some (Node 0 None None 0 0)) (Some 1) 1 1))) \<and>
   int (card {0 :: nat}) = 2 - 1 \<and>
   (- 1 :: int) \<le> 0 \<and>
   breadth_first_graph_search (diamond 2) (- 1) =
     Some (Inr (Some (Node 2 (Some (Node 0 None None 0 0)) (Some 2) 5 1))) \<and>
   goal_test (diamond 2) (state (Node (2 :: nat) (Some (Node 0 None None 0 0)) (Some (2 :: nat)) 5 1))"
proof -
  let ?n1 = "Node (1 :: nat) (Some (Node 0 None None 0 0)) (Some (1 :: nat)) 1 1"
  let ?n2 = "Node (2 :: nat) (Some (Node 0 None None 0 0)) (Some (2 :: nat)) 5 1"
  have g: "\<not> goal_test (diamond 3) (initial (diamond 3))" by (simp add: diamond_def)
  have run: "bfs_run (diamond 3) 2 (bfs_init (diamond 3)) ([?n1, ?n2], {0}, 2 - 1)"
    using diamond_bfs_run by simp
  have ret: "breadth_first_graph_search (diamond 2) (- 1) = Some (Inr (Some ?n2))"
    by code_simp
  from step_limit_return [of 2 "diamond 3" ?n1 "[?n2]" "{0}" "[?n1, ?n2]" "{0}" "2 - 1"] g run
  have a: "breadth_first_graph_search (diamond 3) 2 = Some (Inr (Some ?n1))"
    and b: "int (card {0 :: nat}) = 2 - 1"
    by simp_all
  from step_limit_return [of "- 1" "diamond 2" _ _ _ _ _ _ ?n2] ret
  have c: "goal_test (diamond 2) (state ?n2)" by simp
  from g run a b ret c show ?thesis by simp
qed


theorem dedup_invariant_witness:
  "bfs_point (diamond 3) 2 (bfs_init (diamond 3)) {0}
     [Node 1 (Some (Node 0 None None 0 0)) (Some 1) 1 1,
      Node 2 (Some (Node 0 None None 0 0)) (Some 2) 5 1] \<and>
   state ` set [Node (1 :: nat) (Some (Node 0 None None 0 0)) (Some (1 :: nat)) 1 1,
      Node 2 (Some (Node 0 None None 0 0)) (Some 2) 5 1] \<inter> {0} = {} \<and>
   bf_point (diamond 3) node.path_cost (bf_init (diamond 3) node.path_cost) {0}
     [(1, Node 1 (Some (Node 0 None None 0 0)) (Some 1) 1 1),
      (5, Node 2 (Some (Node 0 None None 0 0)) (Some 2) 5 1)] \<and>
   (\<lambda>e. state (snd e)) `
     set [(1 :: int, Node (1 :: nat) (Some (Node 0 None None 0 0)) (Some (1 :: nat)) 1 1),
      (5, Node 2 (Some (Node 0 None None 0 0)) (Some 2) 5 1)] \<inter> {0} = {}"
proof -
  let ?n1 = "Node (1 :: nat) (Some (Node 0 None None 0 0)) (Some (1 :: nat)) 1 1"
  let ?n2 = "Node (2 :: nat) (Some (Node 0 None None 0 0)) (Some (2 :: nat)) 5 1"
  from diamond_bfs_run have a: "bfs_point (diamond 3) 2 (bfs_init (diamond 3)) {0} [?n1, ?n2]"
    by (rule bfs_at_head)
  from diamond_bf_run
  have b: "bf_point (diamond 3) node.path_cost (bf_init (diamond 3) node.path_cost) {0}
     [(1, ?n1), (5, ?n2)]"
    by (rule bf_at_head)
  from dedup_invariant [of "diamond 3" 2 "{0}" "[?n1, ?n2]" node.path_cost "{0}"
      "[(1, ?n1), (5, ?n2)]"] a b
  have c: "state ` set [?n1, ?n2] \<inter> {0} = {}"
    and d: "(\<lambda>e. state (snd e)) ` set [(1 :: int, ?n1), (5, ?n2)] \<inter> {0} = {}"
    by blast+
  from a c b d show ?thesis by - (intro conjI; assumption)
qed

lemma diamond_expand_left:
  "expand (diamond 3) (Node 1 (Some (Node 0 None None 0 0)) (Some 1) 1 1) =
     Inr [Node 2 (Some (Node 1 (Some (Node 0 None None 0 0)) (Some 1) 1 1)) (Some 2) 2 2]"
  by code_simp

lemma diamond_pop:
  "pq_pop [(1, Node 1 (Some (Node 0 None None 0 0)) (Some 1) 1 1),
           (5 :: int, Node (2 :: nat) (Some (Node 0 None None 0 0)) (Some (2 :: nat)) 5 1)] =
     Inr (Node 1 (Some (Node 0 None None 0 0)) (Some 1) 1 1,
          [(5, Node 2 (Some (Node 0 None None 0 0)) (Some 2) 5 1)])"
  by code_simp

lemma diamond_bf_point:
  "bf_point (diamond 3) node.path_cost (bf_init (diamond 3) node.path_cost) (insert 1 {0})
     [(5, Node 2 (Some (Node 0 None None 0 0)) (Some 2) 5 1)]"
proof -
  let ?n1 = "Node (1 :: nat) (Some (Node 0 None None 0 0)) (Some (1 :: nat)) 1 1"
  let ?n2 = "Node (2 :: nat) (Some (Node 0 None None 0 0)) (Some (2 :: nat)) 5 1"
  have g: "\<not> goal_test (diamond 3) (state ?n1)" by (simp add: diamond_def)
  have f: "bf_for node.path_cost (insert (state ?n1) {0}) [(5, ?n2)]
      (take 0 [Node 2 (Some ?n1) (Some 2) 2 2]) = Inr [(5, ?n2)]"
    by simp
  from bf_at_child [OF diamond_bf_run diamond_pop g diamond_expand_left f]
  show ?thesis by simp
qed

theorem frontier_replacement_witness:
  "bf_point (diamond 3) node.path_cost (bf_init (diamond 3) node.path_cost) (insert 1 {0})
     [(5, Node 2 (Some (Node 0 None None 0 0)) (Some 2) 5 1)] \<and>
   node.path_cost (Node (2 :: nat) (Some (Node 1 (Some (Node 0 None None 0 0)) (Some 1) 1 1))
     (Some (2 :: nat)) 2 2) < 5 \<and>
   bf_child node.path_cost (insert 1 {0})
     [(5, Node 2 (Some (Node 0 None None 0 0)) (Some 2) 5 1)]
     (Node (2 :: nat) (Some (Node 1 (Some (Node 0 None None 0 0)) (Some 1) 1 1))
       (Some (2 :: nat)) 2 2) =
     Inr [(2, Node 2 (Some (Node 1 (Some (Node 0 None None 0 0)) (Some 1) 1 1)) (Some 2) 2 2)] \<and>
   \<not> node.path_cost (Node (2 :: nat) (Some (Node 0 None None 0 0)) (Some (2 :: nat)) 5 1) < 5 \<and>
   bf_child node.path_cost (insert 1 {0})
     [(5, Node 2 (Some (Node 0 None None 0 0)) (Some 2) 5 1)]
     (Node (2 :: nat) (Some (Node 0 None None 0 0)) (Some (2 :: nat)) 5 1) =
     Inr [(5, Node 2 (Some (Node 0 None None 0 0)) (Some 2) 5 1)]"
proof -
  let ?n1 = "Node (1 :: nat) (Some (Node 0 None None 0 0)) (Some (1 :: nat)) 1 1"
  let ?n2 = "Node (2 :: nat) (Some (Node 0 None None 0 0)) (Some (2 :: nat)) 5 1"
  let ?c = "Node (2 :: nat) (Some ?n1) (Some (2 :: nat)) 2 2"
  note pt = diamond_bf_point
  have lt: "node.path_cost ?c < 5" and ge: "\<not> node.path_cost ?n2 < 5" by simp_all
  from frontier_replacement [of "diamond 3" node.path_cost "insert 1 {0}" "[(5, ?n2)]" 5 ?n2 ?c]
    pt lt
  have a: "bf_child node.path_cost (insert 1 {0}) [(5, ?n2)] ?c = Inr [(2, ?c)]" by simp
  from frontier_replacement [of "diamond 3" node.path_cost "insert 1 {0}" "[(5, ?n2)]" 5 ?n2 ?n2]
    pt ge
  have b: "bf_child node.path_cost (insert 1 {0}) [(5, ?n2)] ?n2 = Inr [(5, ?n2)]" by simp
  from pt lt a ge b show ?thesis by - (intro conjI; assumption)
qed

theorem explored_never_reinserted_witness:
  "bfs_run (diamond 3) 2 (bfs_init (diamond 3))
     ([Node 1 (Some (Node 0 None None 0 0)) (Some 1) 1 1,
       Node 2 (Some (Node 0 None None 0 0)) (Some 2) 5 1], {0}, 1) \<and>
   (0 :: nat) \<in> {0} \<and>
   0 \<notin> state ` set [Node (1 :: nat) (Some (Node 0 None None 0 0)) (Some (1 :: nat)) 1 1,
      Node 2 (Some (Node 0 None None 0 0)) (Some 2) 5 1] \<and>
   bfs_for (diamond 3) {0} [] [root (diamond 3)] = bfs_for (diamond 3) {0} [] [] \<and>
   bf_run (diamond 3) node.path_cost (bf_init (diamond 3) node.path_cost)
     ([(1, Node 1 (Some (Node 0 None None 0 0)) (Some 1) 1 1),
       (5, Node 2 (Some (Node 0 None None 0 0)) (Some 2) 5 1)], {0}, 1) \<and>
   0 \<notin> (\<lambda>e. state (snd e)) `
     set [(1 :: int, Node (1 :: nat) (Some (Node 0 None None 0 0)) (Some (1 :: nat)) 1 1),
      (5, Node 2 (Some (Node 0 None None 0 0)) (Some 2) 5 1)] \<and>
   bf_child node.path_cost {0}
     [(1, Node 1 (Some (Node 0 None None 0 0)) (Some 1) 1 1),
      (5, Node 2 (Some (Node 0 None None 0 0)) (Some 2) 5 1)] (root (diamond 3)) =
     Inr [(1, Node 1 (Some (Node 0 None None 0 0)) (Some 1) 1 1),
          (5, Node 2 (Some (Node 0 None None 0 0)) (Some 2) 5 1)]"
proof -
  let ?n1 = "Node (1 :: nat) (Some (Node 0 None None 0 0)) (Some (1 :: nat)) 1 1"
  let ?n2 = "Node (2 :: nat) (Some (Node 0 None None 0 0)) (Some (2 :: nat)) 5 1"
  let ?f = "node.path_cost :: (nat, nat) node \<Rightarrow> int"
  note run = diamond_bfs_run
  from bfs_run_refl have pt: "bfs_point (diamond 3) 2 ([?n1, ?n2], {0}, 1) {0} [?n1, ?n2]"
    by (rule bfs_at_head)
  note run' = diamond_bf_run
  from bf_run_refl
  have pt': "bf_point (diamond 3) ?f ([(1, ?n1), (5, ?n2)], {0}, 1) {0} [(1, ?n1), (5, ?n2)]"
    by (rule bf_at_head)
  from run' have pt3: "bf_point (diamond 3) ?f (bf_init (diamond 3) ?f) {0} [(1, ?n1), (5, ?n2)]"
    by (rule bf_at_head)
  have s: "(0 :: nat) \<in> {0}" by simp
  have c: "state (root (diamond 3)) \<in> {0}" by (simp add: root_def diamond_def state_Node_init)
  note inst = explored_never_reinserted [where p = "diamond 3" and lim = 2 and fr = "[?n1, ?n2]"
      and ex = "{0}" and k = 1 and s = 0 and ex' = "{0}" and fr' = "[?n1, ?n2]"
      and c = "root (diamond 3)" and exa = "{0}" and fra = "[]" and cs = "[]"
      and f = ?f and q = "[(1, ?n1), (5, ?n2)]" and exb = "{0}" and kb = 1 and sb = 0
      and exb' = "{0}" and q' = "[(1, ?n1), (5, ?n2)]" and exc = "{0}"
      and qc = "[(1, ?n1), (5, ?n2)]" and cc = "root (diamond 3)"]
  from inst run s pt have a: "0 \<notin> state ` set [?n1, ?n2]" by blast
  from inst c have b: "bfs_for (diamond 3) {0} [] [root (diamond 3)] = bfs_for (diamond 3) {0} [] []"
    by blast
  from inst run' s pt' have d: "0 \<notin> (\<lambda>e. state (snd e)) ` set [(1 :: int, ?n1), (5, ?n2)]"
    by blast
  from inst pt3 c have e: "bf_child ?f {0} [(1, ?n1), (5, ?n2)] (root (diamond 3)) =
      Inr [(1, ?n1), (5, ?n2)]"
    by blast
  from run s a b run' d e show ?thesis by - (intro conjI; assumption)
qed

section \<open>Termination without a reachable goal\<close>

lemma walk_append:
  "walk p s (as @ bs) = (case walk p s as of None \<Rightarrow> None | Some t \<Rightarrow> walk p t bs)"
  by (induction as arbitrary: s) (auto split: sum.splits)

lemma walk_snoc:
  "walk p s (as @ [a]) = Some t \<longleftrightarrow>
     (\<exists>s' acts. walk p s as = Some s' \<and> actions p s' = Inr acts \<and> a \<in> set acts \<and>
        result p s' a = Inr t)"
  by (auto simp: walk_append split: option.splits sum.splits if_splits)

lemma reachable_initial: "initial p \<in> reachable p"
proof -
  have "walk p (initial p) [] = Some (initial p)" by simp
  then show ?thesis unfolding reachable_def by blast
qed

lemma reachable_step:
  assumes "t \<in> reachable p" and "actions p t = Inr acts" and "a \<in> set acts"
    and "result p t a = Inr t'"
  shows "t' \<in> reachable p"
proof -
  from assms(1) obtain as where "walk p (initial p) as = Some t" by (auto simp: reachable_def)
  with assms(2-4) have "walk p (initial p) (as @ [a]) = Some t'"
    unfolding walk_snoc by blast
  then show ?thesis unfolding reachable_def by blast
qed

lemma expand_reachable:
  assumes "expand p n = Inr cs" and "c \<in> set cs" and "state n \<in> reachable p"
  shows "state c \<in> reachable p"
proof -
  from expand_child [OF assms(1,2)] obtain acts a s' where
    "actions p (state n) = Inr acts" "a \<in> set acts" "result p (state n) a = Inr s'"
    "state c = s'" by (auto simp: state_Node_init)
  with reachable_step [OF assms(3)] show ?thesis by blast
qed

lemma collect_defined:
  "(\<forall>x \<in> set xs. \<exists>y. g x = Inr y) \<Longrightarrow> \<exists>ys. collect g xs = Inr ys"
proof (induction xs)
  case Nil
  show ?case by simp
next
  case (Cons x xs)
  then obtain y ys where "g x = Inr y" and "collect g xs = Inr ys" by auto
  then show ?case by simp
qed

lemma expand_defined:
  assumes "methods_return p" and "state n \<in> reachable p"
  shows "\<exists>cs. expand p n = Inr cs"
proof -
  from assms obtain acts where acts: "actions p (state n) = Inr acts"
    and res: "\<forall>a \<in> set acts. \<exists>t'. result p (state n) a = Inr t'"
    unfolding methods_return_def by blast
  from res have "\<forall>a \<in> set acts. \<exists>c. child_node p n a = Inr c"
    by (auto simp: child_node_def)
  from collect_defined [OF this] acts show ?thesis by (simp add: expand_def)
qed

lemma bfs_for_no_goal:
  "(\<forall>c \<in> set cs. \<not> goal_test p (state c)) \<Longrightarrow>
     \<exists>fr'. bfs_for p ex fr cs = Inr fr' \<and> set fr' \<subseteq> set fr \<union> set cs"
proof (induction cs arbitrary: fr)
  case Nil
  show ?case by simp
next
  case (Cons c cs)
  then have ng: "\<not> goal_test p (state c)" and rest: "\<forall>c \<in> set cs. \<not> goal_test p (state c)"
    by simp_all
  show ?case
  proof (cases "state c \<notin> ex \<and> \<not> node_in c fr")
    case True
    from Cons.IH [OF rest, of "fr @ [c]"] obtain fr' where
      "bfs_for p ex (fr @ [c]) cs = Inr fr'" and "set fr' \<subseteq> set (fr @ [c]) \<union> set cs" by blast
    with True ng show ?thesis by auto
  next
    case False
    from Cons.IH [OF rest, of fr] obtain fr' where
      "bfs_for p ex fr cs = Inr fr'" and "set fr' \<subseteq> set fr \<union> set cs" by blast
    with False show ?thesis by auto
  qed
qed

lemma bfs_loop_fails:
  assumes fin: "finite (reachable p)" and ng: "\<forall>t \<in> reachable p. \<not> goal_test p t"
    and ret: "methods_return p" and lim: "lim \<le> 0"
  shows "bfs_inv ex fr \<Longrightarrow> state ` set fr \<subseteq> reachable p \<Longrightarrow>
    bfs_loop p lim fr ex k = Some (Inr None)"
proof (induction "card (reachable p - ex)" arbitrary: fr ex k rule: less_induct)
  case less
  show ?case
  proof (cases fr)
    case Nil
    then show ?thesis by (simp add: bfs_loop.simps [of p lim "[]"])
  next
    case (Cons n rest)
    with less.prems have n: "state n \<in> reachable p" and new: "state n \<notin> ex"
      by (auto simp: bfs_inv_def)
    from expand_defined [OF ret n] obtain cs where cs: "expand p n = Inr cs" by blast
    from expand_reachable [OF cs _ n] have reach: "\<forall>c \<in> set cs. state c \<in> reachable p"
      by blast
    with ng have "\<forall>c \<in> set cs. \<not> goal_test p (state c)" by blast
    from bfs_for_no_goal [OF this, of "insert (state n) ex" rest] obtain fr' where
      loop: "bfs_for p (insert (state n) ex) rest cs = Inr fr'" and
      sub: "set fr' \<subseteq> set rest \<union> set cs" by blast
    from lim cs loop have body: "bfs_body p lim n rest ex (k + 1) =
        Next (fr', insert (state n) ex, k + 1)"
      by (simp add: bfs_body_def)
    from less.prems(1) Cons have "bfs_inv (insert (state n) ex) rest"
      by (simp add: bfs_pop_inv)
    with loop have inv': "bfs_inv (insert (state n) ex) fr'" by (rule bfs_for_inv)
    from sub reach less.prems(2) Cons have sub': "state ` set fr' \<subseteq> reachable p" by auto
    from n new have "reachable p - insert (state n) ex \<subset> reachable p - ex" by blast
    with fin have "card (reachable p - insert (state n) ex) < card (reachable p - ex)"
      by (simp add: psubset_card_mono)
    from less.hyps [OF this inv' sub']
    have "bfs_loop p lim fr' (insert (state n) ex) (k + 1) = Some (Inr None)" .
    with body Cons show ?thesis by (simp add: bfs_loop.simps [of p lim "n # rest"])
  qed
qed

lemma set_del_first: "set (del_first P q) \<subseteq> set q"
  by (induction q) auto

lemma bf_child_subset:
  assumes "bf_child f ex q c = Inr q'"
  shows "snd ` set q' \<subseteq> snd ` set q \<union> {c}"
proof (cases "pq_contains q c")
  case True
  from pq_getitem_contains [OF this] obtain v where v: "pq_getitem q c = Inr v" by blast
  from bf_child_old [OF v, of f ex] assms set_del_first [of "\<lambda>e. node_eq (snd e) c" q]
  show ?thesis by (auto split: if_splits)
next
  case False
  with assms show ?thesis
    by (cases "state c \<in> ex") (auto simp: bf_child_new bf_child_explored)
qed

lemma bf_for_subset:
  "bf_for f ex q cs = Inr q' \<Longrightarrow> snd ` set q' \<subseteq> snd ` set q \<union> set cs"
proof (induction cs arbitrary: q)
  case Nil
  then show ?case by simp
next
  case (Cons c cs)
  from bf_child_Inr obtain q1 where q1: "bf_child f ex q c = Inr q1" by blast
  with Cons.prems have "bf_for f ex q1 cs = Inr q'" by simp
  from Cons.IH [OF this] bf_child_subset [OF q1] show ?case by auto
qed

lemma bf_loop_fails:
  assumes fin: "finite (reachable p)" and ng: "\<forall>t \<in> reachable p. \<not> goal_test p t"
    and ret: "methods_return p"
  shows "pq_inv ex fr \<Longrightarrow> (\<lambda>e. state (snd e)) ` set fr \<subseteq> reachable p \<Longrightarrow>
    bf_loop p f fr ex k = Some (Inr None)"
proof (induction "card (reachable p - ex)" arbitrary: fr ex k rule: less_induct)
  case less
  show ?case
  proof (cases fr)
    case Nil
    then show ?thesis by (simp add: bf_loop.simps [of p f "[]"])
  next
    case (Cons e es)
    then have "fr \<noteq> []" by simp
    from pq_pop_nonempty [OF this] obtain n rest where pop: "pq_pop fr = Inr (n, rest)" by blast
    from pq_pop_Inr [OF pop] obtain e' where e': "e' \<in> set fr" and ne: "n = snd e'"
      and rest: "rest = remove1 e' fr" by blast
    with less.prems have n: "state n \<in> reachable p" and new: "state n \<notin> ex"
      by (auto simp: pq_inv_def)
    from n ng have nog: "\<not> goal_test p (state n)" by blast
    from expand_defined [OF ret n] obtain cs where cs: "expand p n = Inr cs" by blast
    from expand_reachable [OF cs _ n] have reach: "\<forall>c \<in> set cs. state c \<in> reachable p"
      by blast
    from bf_for_Inr obtain fr' where
      loop: "bf_for f (insert (state n) ex) rest cs = Inr fr'" by blast
    from pop nog cs loop have body: "bf_body p f fr ex (k + 1) =
        Next (fr', insert (state n) ex, k + 1)"
      by (simp add: bf_body_def)
    from pq_pop_inv [OF less.prems(1) pop] loop
    have inv': "pq_inv (insert (state n) ex) fr'" by (rule bf_for_inv [rotated])
    from rest have "set rest \<subseteq> set fr" using set_remove1_subset [of e' fr] by simp
    have sub': "(\<lambda>e. state (snd e)) ` set fr' \<subseteq> reachable p"
    proof
      fix t
      assume "t \<in> (\<lambda>e. state (snd e)) ` set fr'"
      then obtain e1 where e1: "e1 \<in> set fr'" and t: "t = state (snd e1)" by blast
      from e1 bf_for_subset [OF loop] have "snd e1 \<in> snd ` set rest \<or> snd e1 \<in> set cs"
        by blast
      then show "t \<in> reachable p"
      proof
        assume "snd e1 \<in> snd ` set rest"
        then obtain e2 where "e2 \<in> set rest" and "snd e2 = snd e1" by force
        with \<open>set rest \<subseteq> set fr\<close> less.prems(2) show ?thesis unfolding t by force
      next
        assume "snd e1 \<in> set cs"
        with reach show ?thesis unfolding t by blast
      qed
    qed
    from n new have "reachable p - insert (state n) ex \<subset> reachable p - ex" by blast
    with fin have "card (reachable p - insert (state n) ex) < card (reachable p - ex)"
      by (simp add: psubset_card_mono)
    from less.hyps [OF this inv' sub']
    have "bf_loop p f fr' (insert (state n) ex) (k + 1) = Some (Inr None)" .
    with body Cons show ?thesis by (simp add: bf_loop.simps [of p f "e # es"])
  qed
qed

text \<open>
  C8. For a problem with finitely many reachable states, none of them a goal, and whose
  \<open>actions\<close> and \<open>result\<close> return on the reachable states: breadth-first search
  (with a step limit that is not positive, as the default \<open>-1\<close>) and best-first search
  with any score function both terminate and return \<open>None\<close>; they raise nothing.
\<close>

theorem unreachable_goal_returns_None:
  "finite (reachable p) \<and> (\<forall>t \<in> reachable p. \<not> goal_test p t) \<and> methods_return p \<and> lim \<le> 0 \<longrightarrow>
     breadth_first_graph_search p lim = Some (Inr None) \<and>
     best_first_graph_search p f = Some (Inr None)"
proof (intro impI, elim conjE)
  assume fin: "finite (reachable p)" and ng: "\<forall>t \<in> reachable p. \<not> goal_test p t"
    and ret: "methods_return p" and lim: "lim \<le> 0"
  from ng reachable_initial have root: "\<not> goal_test p (initial p)" by blast
  have "bfs_loop p lim [root p] {} 0 = Some (Inr None)"
    by (rule bfs_loop_fails [OF fin ng ret lim])
      (simp_all add: bfs_inv_def root_def state_Node_init reachable_initial)
  with root have a: "breadth_first_graph_search p lim = Some (Inr None)"
    by (simp add: breadth_first_graph_search_def root_def state_Node_init)
  have "bf_loop p f (pq_append f [] (root p)) {} 0 = Some (Inr None)"
    by (rule bf_loop_fails [OF fin ng ret])
      (simp_all add: pq_inv_def pq_append_def root_def state_Node_init reachable_initial)
  then have b: "best_first_graph_search p f = Some (Inr None)"
    by (simp add: best_first_graph_search_def root_def)
  from a b show "breadth_first_graph_search p lim = Some (Inr None) \<and>
     best_first_graph_search p f = Some (Inr None)" by simp
qed


lemma diamond_walk:
  "walk (diamond g) s as = Some t \<Longrightarrow> s \<in> {0, 1, 2} \<Longrightarrow> t \<in> {0, 1, 2}"
proof (induction as arbitrary: s)
  case Nil
  then show ?case by simp
next
  case (Cons a as)
  from Cons.prems(1) have a: "a \<in> {0, 1, 2}" and rest: "walk (diamond g) a as = Some t"
    by (auto simp: diamond_def split: if_splits)
  from Cons.IH [OF rest a] show ?case .
qed

lemma diamond_reachable: "reachable (diamond g) \<subseteq> {0, 1, 2}"
proof
  fix t
  assume "t \<in> reachable (diamond g)"
  then obtain as where "walk (diamond g) (initial (diamond g)) as = Some t"
    by (auto simp: reachable_def)
  moreover have "initial (diamond g) \<in> {0, 1, 2}" by (simp add: diamond_def)
  ultimately show "t \<in> {0, 1, 2}" by (rule diamond_walk)
qed

lemma diamond_methods_return: "methods_return (diamond g)"
  by (simp add: methods_return_def diamond_def)

theorem unreachable_goal_returns_None_witness:
  "finite (reachable (diamond 3)) \<and> 3 \<notin> reachable (diamond 3) \<and> methods_return (diamond 3) \<and>
   (- 1 :: int) \<le> 0 \<and>
   breadth_first_graph_search (diamond 3) (- 1) = Some (Inr None) \<and>
   best_first_graph_search (diamond 3) node.path_cost = Some (Inr None)"
proof -
  have fin: "finite (reachable (diamond 3))"
    by (rule finite_subset [OF diamond_reachable]) simp
  from diamond_reachable [of 3] have no: "3 \<notin> reachable (diamond 3)" by auto
  then have ng: "\<forall>t \<in> reachable (diamond 3). \<not> goal_test (diamond 3) t"
    by (auto simp: diamond_def)
  have lim: "(- 1 :: int) \<le> 0" by simp
  from unreachable_goal_returns_None [of "diamond 3" "- 1" node.path_cost]
    fin ng diamond_methods_return lim
  have "breadth_first_graph_search (diamond 3) (- 1) = Some (Inr None) \<and>
    best_first_graph_search (diamond 3) node.path_cost = Some (Inr None)"
    by blast
  with fin no diamond_methods_return lim show ?thesis by blast
qed

section \<open>Shortest solutions of breadth-first search\<close>

lemma closed_from_mono: "closed_from p s T \<Longrightarrow> T \<subseteq> T' \<Longrightarrow> closed_from p s T'"
  unfolding closed_from_def by blast

lemma barrier:
  assumes inv: "bfs_mid_inv p n ex fr todo"
  shows "walk p (initial p) as = Some s \<Longrightarrow> s \<notin> ex \<Longrightarrow>
     s \<in> state ` set fr \<or> (\<exists>m \<in> set fr. depth m < length as) \<or> depth n < length as"
proof (induction as arbitrary: s rule: rev_induct)
  case Nil
  then have "s = initial p" by simp
  with Nil.prems(2) inv show ?case by (auto simp: bfs_mid_inv_def)
next
  case (snoc a as)
  from snoc.prems(1) obtain s0 acts where w: "walk p (initial p) as = Some s0"
    and acts: "actions p s0 = Inr acts" and a: "a \<in> set acts" and res: "result p s0 a = Inr s"
    unfolding walk_snoc by blast
  show ?case
  proof (cases "s0 \<in> ex")
    case False
    from snoc.IH [OF w False] show ?thesis
    proof (elim disjE)
      assume "s0 \<in> state ` set fr"
      then obtain m where m: "m \<in> set fr" and s0: "state m = s0" by blast
      with inv have "min_depth p m" by (simp add: bfs_mid_inv_def)
      with w s0 have "depth m < length (as @ [a])" by (simp add: min_depth_def less_Suc_eq_le)
      with m show ?thesis by blast
    next
      assume "\<exists>m \<in> set fr. depth m < length as"
      then obtain m where "m \<in> set fr" and "depth m < length (as @ [a])" by auto
      then show ?thesis by blast
    next
      assume "depth n < length as"
      then show ?thesis by simp
    qed
  next
    case True
    show ?thesis
    proof (cases "s0 = state n")
      case True
      from inv have "min_depth p n" by (simp add: bfs_mid_inv_def)
      with w True have "depth n \<le> length as" by (simp add: min_depth_def)
      then show ?thesis by simp
    next
      case False
      with True inv have "closed_from p s0 (ex \<union> state ` set fr)"
        by (simp add: bfs_mid_inv_def)
      with acts a res have "s \<in> ex \<union> state ` set fr" unfolding closed_from_def by blast
      with snoc.prems(2) show ?thesis by simp
    qed
  qed
qed

lemma deep:
  assumes inv: "bfs_mid_inv p n ex fr todo" and w: "walk p (initial p) as = Some s"
    and "s \<notin> ex" and "s \<notin> state ` set fr"
  shows "depth n + 1 \<le> length as"
proof -
  from inv have "\<forall>m \<in> set fr. depth n \<le> depth m" by (simp add: bfs_mid_inv_def)
  with barrier [OF inv w assms(3)] assms(4) show ?thesis by fastforce
qed


lemma node_ok_root: "node_ok p (root p)"
  by (simp add: node_ok_def trace_def solution_root)
    (simp add: root_def depth_Node_init_None state_Node_init)

lemma node_ok_child:
  assumes "node_ok p n" and "expand p n = Inr cs" and "c \<in> set cs"
  shows "node_ok p c \<and> depth c = depth n + 1"
proof -
  from expand_child [OF assms(2,3)] obtain acts a s' where
    acts: "actions p (state n) = Inr acts" and a: "a \<in> set acts" and
    res: "result p (state n) a = Inr s'" and
    c: "c = Node_init s' (Some n) (Some a)
              (problem.path_cost p (node.path_cost n) (state n) a s')"
    by blast
  from assms(1) have sol: "solution n = map Some (trace n)" and len: "length (trace n) = depth n"
    and w: "walk p (initial p) (trace n) = Some (state n)"
    by (simp_all add: node_ok_def)
  have tr: "trace c = trace n @ [a]"
    by (simp add: trace_def c solution_Node_init_Some)
  from sol have "solution c = map Some (trace c)"
    by (simp add: tr) (simp add: c solution_Node_init_Some)
  moreover from len have "length (trace c) = depth c"
    by (simp add: tr) (simp add: c depth_Node_init_Some)
  moreover from w acts a res have "walk p (initial p) (trace c) = Some (state c)"
    unfolding tr walk_snoc by (simp add: c state_Node_init)
  ultimately show ?thesis by (simp add: node_ok_def c depth_Node_init_Some)
qed

lemma expand_closed:
  assumes "expand p n = Inr cs"
  shows "closed_from p (state n) (state ` set cs)"
  unfolding closed_from_def
proof (intro allI impI)
  fix acts a s'
  assume acts: "actions p (state n) = Inr acts" and a: "a \<in> set acts"
    and res: "result p (state n) a = Inr s'"
  from assms acts have "collect (child_node p n) acts = Inr cs" by (simp add: expand_def)
  from collect_Inr_all [OF this a] obtain c where c: "c \<in> set cs"
    and "child_node p n a = Inr c" by blast
  with res have "state c = s'" by (auto simp: child_node_def state_Node_init)
  with c show "s' \<in> state ` set cs" by blast
qed

lemma bfs_for_optimal:
  "bfs_mid_inv p n ex fr cs \<Longrightarrow>
     (\<forall>fr'. bfs_for p ex fr cs = Inr fr' \<longrightarrow> bfs_mid_inv p n ex fr' []) \<and>
     (\<forall>c. bfs_for p ex fr cs = Inl c \<longrightarrow>
        node_ok p c \<and> goal_test p (state c) \<and>
        (\<forall>as t. walk p (initial p) as = Some t \<longrightarrow> goal_test p t \<longrightarrow> depth c \<le> length as))"
proof (induction cs arbitrary: fr)
  case Nil
  then show ?case by simp
next
  case (Cons c cs)
  note inv = Cons.prems
  from inv have c_ok: "node_ok p c" and c_depth: "depth c = depth n + 1"
    by (simp_all add: bfs_mid_inv_def)
  show ?case
  proof (cases "state c \<notin> ex \<and> \<not> node_in c fr")
    case False
    then have old: "state c \<in> ex \<union> state ` set fr" by (auto simp: node_in_iff)
    then have "ex \<union> state ` set fr \<union> state ` set (c # cs) = ex \<union> state ` set fr \<union> state ` set cs"
      by auto
    with inv have "bfs_mid_inv p n ex fr cs" by (simp add: bfs_mid_inv_def)
    moreover from False have "bfs_for p ex fr (c # cs) = bfs_for p ex fr cs" by auto
    ultimately show ?thesis using Cons.IH [of fr] by simp
  next
    case True
    then have new: "state c \<notin> ex" "state c \<notin> state ` set fr" by (auto simp: node_in_iff)
    show ?thesis
    proof (cases "goal_test p (state c)")
      case goal: True
      with True have ret: "bfs_for p ex fr (c # cs) = Inl c" by simp
      have "depth c \<le> length as" if "walk p (initial p) as = Some t" and "goal_test p t" for as t
      proof -
        from that(2) inv have "t \<notin> ex" and "t \<notin> state ` set fr"
          by (auto simp: bfs_mid_inv_def)
        from deep [OF inv that(1) this] c_depth show ?thesis by simp
      qed
      with c_ok goal ret show ?thesis by simp
    next
      case nogoal: False
      have c_min: "min_depth p c"
        unfolding min_depth_def
      proof (intro allI impI)
        fix as
        assume "walk p (initial p) as = Some (state c)"
        from deep [OF inv this new] c_depth show "depth c \<le> length as" by simp
      qed
      have sets: "ex \<union> state ` set (fr @ [c]) \<union> state ` set cs =
          ex \<union> state ` set fr \<union> state ` set (c # cs)" by auto
      have "bfs_mid_inv p n ex (fr @ [c]) cs"
        unfolding bfs_mid_inv_def
      proof (intro conjI)
        from inv show "min_depth p n" and "state n \<in> ex"
          by (simp_all add: bfs_mid_inv_def)
        from inv c_ok c_min c_depth
        show "\<forall>m \<in> set (fr @ [c]). node_ok p m \<and> min_depth p m \<and> depth n \<le> depth m \<and>
            depth m \<le> depth n + 1"
          by (auto simp: bfs_mid_inv_def)
        from inv c_depth show "sorted (map depth (fr @ [c]))"
          by (auto simp: bfs_mid_inv_def sorted_append)
        from inv have "\<forall>s \<in> ex - {state n}. closed_from p s (ex \<union> state ` set fr)"
          by (simp add: bfs_mid_inv_def)
        moreover have "ex \<union> state ` set fr \<subseteq> ex \<union> state ` set (fr @ [c])" by auto
        ultimately show "\<forall>s \<in> ex - {state n}. closed_from p s (ex \<union> state ` set (fr @ [c]))"
          by (blast intro: closed_from_mono)
        from inv show "closed_from p (state n) (ex \<union> state ` set (fr @ [c]) \<union> state ` set cs)"
          unfolding sets by (simp add: bfs_mid_inv_def)
        from inv show "\<forall>c \<in> set cs. node_ok p c \<and> depth c = depth n + 1"
          by (simp add: bfs_mid_inv_def)
        from inv show "initial p \<in> ex \<union> state ` set (fr @ [c])"
          by (auto simp: bfs_mid_inv_def)
        from inv nogoal show "\<forall>s \<in> ex \<union> state ` set (fr @ [c]). \<not> goal_test p s"
          by (auto simp: bfs_mid_inv_def)
      qed
      moreover from True nogoal
      have "bfs_for p ex fr (c # cs) = bfs_for p ex (fr @ [c]) cs" by simp
      ultimately show ?thesis using Cons.IH [of "fr @ [c]"] by simp
    qed
  qed
qed

lemma bfs_head_to_mid:
  assumes inv: "bfs_head_inv p (n # rest) ex" and cs: "expand p n = Inr cs"
  shows "bfs_mid_inv p n (insert (state n) ex) rest cs"
  unfolding bfs_mid_inv_def
proof (intro conjI)
  from inv have n_ok: "node_ok p n" by (simp add: bfs_head_inv_def)
  from inv show "min_depth p n" by (simp add: bfs_head_inv_def)
  show "state n \<in> insert (state n) ex" by simp
  from inv show "\<forall>m \<in> set rest. node_ok p m \<and> min_depth p m \<and> depth n \<le> depth m \<and>
      depth m \<le> depth n + 1"
    by (auto simp: bfs_head_inv_def)
  from inv show "sorted (map depth rest)" by (simp add: bfs_head_inv_def)
  have eq: "insert (state n) ex \<union> state ` set rest = ex \<union> state ` set (n # rest)" by auto
  from inv show "\<forall>s \<in> insert (state n) ex - {state n}.
      closed_from p s (insert (state n) ex \<union> state ` set rest)"
    unfolding eq by (simp add: bfs_head_inv_def)
  from expand_closed [OF cs]
  show "closed_from p (state n) (insert (state n) ex \<union> state ` set rest \<union> state ` set cs)"
    by (rule closed_from_mono) blast
  from n_ok cs show "\<forall>c \<in> set cs. node_ok p c \<and> depth c = depth n + 1"
    by (blast dest: node_ok_child)
  from inv show "initial p \<in> insert (state n) ex \<union> state ` set rest"
    unfolding eq by (simp add: bfs_head_inv_def)
  from inv show "\<forall>s \<in> insert (state n) ex \<union> state ` set rest. \<not> goal_test p s"
    unfolding eq by (simp add: bfs_head_inv_def)
qed

lemma bfs_mid_to_head:
  assumes inv: "bfs_mid_inv p n ex fr []"
  shows "bfs_head_inv p fr ex"
  unfolding bfs_head_inv_def
proof (intro conjI)
  from inv have bounds: "\<forall>m \<in> set fr. depth n \<le> depth m \<and> depth m \<le> depth n + 1"
    by (simp add: bfs_mid_inv_def)
  have "depth m \<le> depth (hd fr) + 1" if "m \<in> set fr" for m
  proof -
    from that have "fr \<noteq> []" by auto
    then have "hd fr \<in> set fr" by simp
    with bounds have "depth n \<le> depth (hd fr)" by blast
    moreover from bounds that have "depth m \<le> depth n + 1" by blast
    ultimately show ?thesis by simp
  qed
  with inv show "\<forall>m \<in> set fr. node_ok p m \<and> min_depth p m \<and> depth m \<le> depth (hd fr) + 1"
    by (simp add: bfs_mid_inv_def)
  from inv show "sorted (map depth fr)" by (simp add: bfs_mid_inv_def)
  from inv have "closed_from p (state n) (ex \<union> state ` set fr)"
    and "\<forall>s \<in> ex - {state n}. closed_from p s (ex \<union> state ` set fr)"
    by (simp_all add: bfs_mid_inv_def)
  then show "\<forall>s \<in> ex. closed_from p s (ex \<union> state ` set fr)" by blast
  from inv show "initial p \<in> ex \<union> state ` set fr" by (simp add: bfs_mid_inv_def)
  from inv show "\<forall>s \<in> ex \<union> state ` set fr. \<not> goal_test p s" by (simp add: bfs_mid_inv_def)
qed

lemma bfs_body_head_inv:
  assumes "bfs_body p lim n rest ex k = Next (fr', ex', k')" and "bfs_head_inv p (n # rest) ex"
  shows "bfs_head_inv p fr' ex'"
proof -
  from bfs_body_Next [OF assms(1)] obtain cs where cs: "expand p n = Inr cs"
    and loop: "bfs_for p (insert (state n) ex) rest cs = Inr fr'"
    and ex': "ex' = insert (state n) ex" by blast
  from bfs_for_optimal [OF bfs_head_to_mid [OF assms(2) cs]] loop
  have "bfs_mid_inv p n (insert (state n) ex) fr' []" by blast
  then show ?thesis unfolding ex' by (rule bfs_mid_to_head)
qed

lemma bfs_run_head_inv:
  "bfs_run p lim st st' \<Longrightarrow> bfs_head_inv p (fst st) (fst (snd st)) \<Longrightarrow>
     bfs_head_inv p (fst st') (fst (snd st'))"
proof (induction rule: bfs_run.induct)
  case bfs_run_refl
  then show ?case .
next
  case (bfs_run_step n rest ex k st')
  then have inv: "bfs_head_inv p (n # rest) ex" by simp
  obtain fr' ex' k' where st': "st' = (fr', ex', k')" by (cases st')
  from bfs_body_head_inv [OF bfs_run_step.hyps(2) [unfolded st'] inv] show ?case
    by (simp add: st')
qed

lemma bfs_head_inv_init:
  "\<not> goal_test p (initial p) \<Longrightarrow> bfs_head_inv p [root p] {}"
  using node_ok_root [of p]
  by (simp add: bfs_head_inv_def min_depth_def)
    (simp add: root_def depth_Node_init_None state_Node_init)

text \<open>
  C1. When breadth-first search (with a step limit that is not positive, as the default
  \<open>-1\<close>) returns a node, the actions of its \<open>solution\<close> lead from the initial state
  to a goal, and no list of actions that does so is shorter: the length of the solution
  is the least length of a solution. This holds for every problem, whatever its step
  costs and the number of its states.
\<close>

theorem bfs_optimal:
  "lim \<le> 0 \<and> breadth_first_graph_search p lim = Some (Inr (Some n)) \<longrightarrow>
     (\<exists>as. solution n = map Some as \<and> is_solution p as) \<and>
     (\<forall>bs. is_solution p bs \<longrightarrow> length (solution n) \<le> length bs) \<and>
     length (solution n) = (LEAST k. \<exists>bs. is_solution p bs \<and> length bs = k)"
proof (intro impI, elim conjE)
  assume lim: "lim \<le> 0" and ret: "breadth_first_graph_search p lim = Some (Inr (Some n))"
  have main: "node_ok p n \<and> goal_test p (state n) \<and>
      (\<forall>as t. walk p (initial p) as = Some t \<longrightarrow> goal_test p t \<longrightarrow> depth n \<le> length as)"
  proof (cases "goal_test p (initial p)")
    case True
    with ret have "n = root p"
      by (simp add: breadth_first_graph_search_def root_def state_Node_init)
    with True node_ok_root [of p] show ?thesis
      by (simp add: root_def depth_Node_init_None state_Node_init)
  next
    case False
    with ret have "bfs_loop p lim [root p] {} 0 = Some (Inr (Some n))"
      by (simp add: breadth_first_graph_search_def root_def state_Node_init)
    from bfs_loop_stops [OF this] obtain st' where
      run: "bfs_run p lim ([root p], {}, 0) st'" and
      stops: "bfs_stops p lim st' (Inr (Some n))" by blast
    obtain fr1 ex1 k1 where st': "st' = (fr1, ex1, k1)" by (cases st')
    from stops obtain m rest1 where fr1: "fr1 = m # rest1"
      by (cases fr1) (simp_all add: bfs_stops_def st')
    from stops have "bfs_body p lim m rest1 ex1 (k1 + 1) = Return (Some n)"
      by (cases "bfs_body p lim m rest1 ex1 (k1 + 1)") (simp_all add: bfs_stops_def st' fr1)
    from bfs_body_Return [OF this] lim obtain cs where cs: "expand p m = Inr cs"
      and loop: "bfs_for p (insert (state m) ex1) rest1 cs = Inl n" by auto
    from bfs_run_head_inv [OF run] bfs_head_inv_init [OF False]
    have "bfs_head_inv p (m # rest1) ex1" by (simp add: st' fr1)
    from bfs_for_optimal [OF bfs_head_to_mid [OF this cs]] loop show ?thesis by blast
  qed
  then have ok: "node_ok p n" and goal: "goal_test p (state n)" and
    least: "\<And>as t. walk p (initial p) as = Some t \<Longrightarrow> goal_test p t \<Longrightarrow> depth n \<le> length as"
    by blast+
  from ok goal have "solution n = map Some (trace n) \<and> is_solution p (trace n)"
    by (simp add: node_ok_def is_solution_def)
  then have first: "\<exists>as. solution n = map Some as \<and> is_solution p as" by blast
  have second: "\<forall>bs. is_solution p bs \<longrightarrow> length (solution n) \<le> length bs"
  proof (intro allI impI)
    fix bs
    assume "is_solution p bs"
    then obtain t where "walk p (initial p) bs = Some t" and "goal_test p t"
      by (auto simp: is_solution_def split: option.splits)
    from least [OF this] ok show "length (solution n) \<le> length bs"
      by (simp add: node_ok_def)
  qed
  from first obtain as where "is_solution p as" and "length as = length (solution n)"
    by (metis length_map)
  with second have "(LEAST k. \<exists>bs. is_solution p bs \<and> length bs = k) = length (solution n)"
    by (intro Least_equality) auto
  with first second show "(\<exists>as. solution n = map Some as \<and> is_solution p as) \<and>
     (\<forall>bs. is_solution p bs \<longrightarrow> length (solution n) \<le> length bs) \<and>
     length (solution n) = (LEAST k. \<exists>bs. is_solution p bs \<and> length bs = k)"
    by simp
qed

lemma diamond_bfs_goal:
  "breadth_first_graph_search (diamond 2) (- 1) =
     Some (Inr (Some (Node 2 (Some (Node 0 None None 0 0)) (Some 2) 5 1)))"
  by code_simp

theorem bfs_optimal_witness:
  "(- 1 :: int) \<le> 0 \<and>
   breadth_first_graph_search (diamond 2) (- 1) =
     Some (Inr (Some (Node 2 (Some (Node 0 None None 0 0)) (Some 2) 5 1))) \<and>
   solution (Node (2 :: nat) (Some (Node 0 None None 0 0)) (Some (2 :: nat)) 5 1) = [Some 2] \<and>
   is_solution (diamond 2) [2] \<and>
   length (solution (Node (2 :: nat) (Some (Node 0 None None 0 0)) (Some (2 :: nat)) 5 1)) =
     (LEAST k. \<exists>bs. is_solution (diamond 2) bs \<and> length bs = k)"
proof -
  let ?n2 = "Node (2 :: nat) (Some (Node 0 None None 0 0)) (Some (2 :: nat)) 5 1"
  have lim: "(- 1 :: int) \<le> 0" by simp
  have sol: "solution ?n2 = [Some 2]" by (simp add: solution_def path_def)
  have is_sol: "is_solution (diamond 2) [2]" by (simp add: is_solution_def diamond_def)
  from bfs_optimal [of "- 1" "diamond 2" ?n2] lim diamond_bfs_goal
  have "length (solution ?n2) = (LEAST k. \<exists>bs. is_solution (diamond 2) bs \<and> length bs = k)"
    by blast
  with lim diamond_bfs_goal sol is_sol show ?thesis by - (intro conjI; assumption)
qed

end
